theory Spec2Isabelle
  imports Main "HOL-Library.Sublist"
begin

section \<open>Go standard-library strings\<close>

text \<open>
  A Go \<^verbatim>\<open>string\<close> is a byte sequence; it is modelled as \<^typ>\<open>string\<close>, a list of
  8-bit characters. The helpers below carry the names of the \<^verbatim>\<open>strings\<close> functions
  that \<^verbatim>\<open>main.go\<close> calls.
\<close>

definition strings_HasPrefix :: "string \<Rightarrow> string \<Rightarrow> bool" where
  "strings_HasPrefix s p = prefix p s"

text \<open>\<^verbatim>\<open>strings.Contains(s, substr)\<close>: \<^verbatim>\<open>substr\<close> occurs somewhere within \<^verbatim>\<open>s\<close>.\<close>

fun strings_Contains :: "string \<Rightarrow> string \<Rightarrow> bool" where
  "strings_Contains [] sub = (sub = [])"
| "strings_Contains (c # cs) sub = (prefix sub (c # cs) \<or> strings_Contains cs sub)"

text \<open>\<^verbatim>\<open>strings.ReplaceAll(s, " ", "_")\<close>, the only replacement the program performs.\<close>

definition strings_ReplaceAll_space :: "string \<Rightarrow> string" where
  "strings_ReplaceAll_space s = map (\<lambda>c. if c = CHR '' '' then CHR ''_'' else c) s"

text \<open>\<^verbatim>\<open>strings.ToLower\<close>: the letters A..Z are mapped to a..z. Go lowers letters
  beyond ASCII too; the model leaves every other byte as it is, so it is exact on
  ASCII text.\<close>

definition toLower_char :: "char \<Rightarrow> char" where
  "toLower_char c =
     (case map_of (zip ''ABCDEFGHIJKLMNOPQRSTUVWXYZ'' ''abcdefghijklmnopqrstuvwxyz'') c of
        None \<Rightarrow> c
      | Some l \<Rightarrow> l)"

definition strings_ToLower :: "string \<Rightarrow> string" where
  "strings_ToLower s = map toLower_char s"

text \<open>\<^verbatim>\<open>strings.Cut(s, sep)\<close> for a one-byte separator: the text before the first
  separator, the text after it, and whether the separator was found.\<close>

definition strings_Cut :: "string \<Rightarrow> char \<Rightarrow> string \<times> string \<times> bool" where
  "strings_Cut s sep =
     (let pre = takeWhile (\<lambda>c. c \<noteq> sep) s
      in if length pre < length s
         then (pre, drop (Suc (length pre)) s, True)
         else (s, [], False))"


section \<open>The regular expression of the link extractor\<close>

text \<open>
  \<^verbatim>\<open>regexp.MustCompile\<close> compiles a pattern of Go's RE2 syntax. The constructors below
  cover what the pattern of \<^verbatim>\<open>ExtractURLsFromHTMLFile\<close> uses: literals, a character
  class, the greedy repetition of a negated class, concatenation, alternation, the
  greedy option and capturing groups.
\<close>

datatype regex =
    Str string                \<comment> \<open>a literal\<close>
  | OneOf "char list"         \<comment> \<open>\<^verbatim>\<open>[...]\<close>\<close>
  | PlusNoneOf "char list"    \<comment> \<open>\<^verbatim>\<open>[^...]+\<close>, greedy\<close>
  | Seq regex regex
  | Alt regex regex
  | Opt regex                 \<comment> \<open>\<^verbatim>\<open>r?\<close>, greedy\<close>
  | Cap nat regex             \<comment> \<open>the capturing group with the given index\<close>

type_synonym captures = "(nat \<times> string) list"

text \<open>
  Go's \<^verbatim>\<open>regexp\<close> package finds the match a backtracking search finds first
  (leftmost-first). \<open>matches r s cs\<close> lists, in the order in which a backtracking
  search tries them, the ways in which \<open>r\<close> matches a prefix of \<open>s\<close>: each with the
  captures recorded so far and the text left over.
\<close>

fun matches :: "regex \<Rightarrow> string \<Rightarrow> captures \<Rightarrow> (captures \<times> string) list" where
  "matches (Str l) s cs = (if prefix l s then [(cs, drop (length l) s)] else [])"
| "matches (OneOf cls) s cs =
     (case s of [] \<Rightarrow> [] | c # s' \<Rightarrow> if c \<in> set cls then [(cs, s')] else [])"
| "matches (PlusNoneOf cls) s cs =
     map (\<lambda>k. (cs, drop k s)) (rev [1 ..< Suc (length (takeWhile (\<lambda>c. c \<notin> set cls) s))])"
| "matches (Seq r1 r2) s cs =
     concat (map (\<lambda>(cs', s'). matches r2 s' cs') (matches r1 s cs))"
| "matches (Alt r1 r2) s cs = matches r1 s cs @ matches r2 s cs"
| "matches (Opt r) s cs = matches r s cs @ [(cs, s)]"
| "matches (Cap i r) s cs =
     map (\<lambda>(cs', s'). ((i, take (length s - length s') s) # cs', s')) (matches r s cs)"

text \<open>The text of group \<open>i\<close>; a group that took no part in the match yields the empty
  string, as in the slices \<^verbatim>\<open>FindAllStringSubmatch\<close> returns.\<close>

definition group :: "captures \<Rightarrow> nat \<Rightarrow> string" where
  "group cs i = (case map_of cs i of None \<Rightarrow> [] | Some g \<Rightarrow> g)"

text \<open>One match at the very start of \<open>s\<close>: the slice
  \<^verbatim>\<open>[whole match, group 1, ..., group n]\<close> and the text after the match.\<close>

definition matchHere :: "regex \<Rightarrow> nat \<Rightarrow> string \<Rightarrow> (string list \<times> string) option" where
  "matchHere r n s =
     (case matches r s [] of
        [] \<Rightarrow> None
      | (cs, s') # _ \<Rightarrow>
          Some (take (length s - length s') s # map (group cs) [1 ..< Suc n], s'))"

text \<open>
  \<^verbatim>\<open>re.FindAllStringSubmatch(content, -1)\<close>: all successive non-overlapping matches,
  each the leftmost one at or after the end of the previous match. The search tries
  every start position in turn. As in Go's loop, a match that consumes nothing is
  delivered unless it sits at the end of the previous match, and the search then moves
  on by one position; the pattern of this program never matches the empty string.
\<close>

function FindAllStringSubmatch_from ::
  "regex \<Rightarrow> nat \<Rightarrow> bool \<Rightarrow> string \<Rightarrow> string list list" where
  "FindAllStringSubmatch_from r n atPrevEnd s =
     (case matchHere r n s of
        None \<Rightarrow> (case s of [] \<Rightarrow> [] | _ # s' \<Rightarrow> FindAllStringSubmatch_from r n False s')
      | Some (m, rest) \<Rightarrow>
          if length rest < length s
          then m # FindAllStringSubmatch_from r n True rest
          else (if atPrevEnd then [] else [m]) @
               (case s of [] \<Rightarrow> [] | _ # s' \<Rightarrow> FindAllStringSubmatch_from r n False s'))"
  by pat_completeness auto
termination
  by (relation "measure (\<lambda>(r, n, b, s). length s)") auto

declare FindAllStringSubmatch_from.simps [simp del]

definition FindAllStringSubmatch :: "regex \<Rightarrow> nat \<Rightarrow> string \<Rightarrow> string list list" where
  "FindAllStringSubmatch r n s = FindAllStringSubmatch_from r n False s"

definition urlRegex :: regex where
  \<open>urlRegex =
     Seq (Alt (Str ''href'') (Str ''src''))
    (Seq (Str ''='')
    (Seq (OneOf [CHR ''"'', CHR 0x27])
    (Seq (Opt (Cap 1 (Alt (Seq (Str ''http'') (Seq (Opt (Str ''s'')) (Str ''://'')))
                          (Str ''//''))))
    (Seq (Cap 2 (PlusNoneOf [CHR ''"'', CHR 0x27]))
         (OneOf [CHR ''"'', CHR 0x27])))))\<close>


section \<open>Paths: Go's \<^verbatim>\<open>path\<close> package\<close>

fun splitOn :: "char \<Rightarrow> string \<Rightarrow> string list" where
  "splitOn sep [] = [[]]"
| "splitOn sep (c # cs) =
     (if c = sep then [] # splitOn sep cs
      else (case splitOn sep cs of [] \<Rightarrow> [[c]] | e # es \<Rightarrow> (c # e) # es))"

fun joinWith :: "char \<Rightarrow> string list \<Rightarrow> string" where
  "joinWith sep [] = []"
| "joinWith sep [e] = e"
| "joinWith sep (e # es) = e @ sep # joinWith sep es"

text \<open>
  \<^verbatim>\<open>path.Clean\<close> reads the path element by element: empty elements and \<^verbatim>\<open>.\<close> are
  dropped, \<^verbatim>\<open>..\<close> removes the element before it where there is one to remove, is
  dropped directly under the root, and is kept at the start of a path that is not
  rooted. \<open>out\<close> holds the elements written so far.
\<close>

fun clean_elems :: "bool \<Rightarrow> string list \<Rightarrow> string list \<Rightarrow> string list" where
  "clean_elems rooted [] out = out"
| "clean_elems rooted (e # es) out =
     (if e = [] \<or> e = ''.'' then clean_elems rooted es out
      else if e = ''..'' then
        (if out \<noteq> [] \<and> last out \<noteq> ''..'' then clean_elems rooted es (butlast out)
         else if \<not> rooted then clean_elems rooted es (out @ [''..''])
         else clean_elems rooted es out)
      else clean_elems rooted es (out @ [e]))"

definition path_Clean :: "string \<Rightarrow> string" where
  "path_Clean p =
     (if p = [] then ''.''
      else let rooted = (hd p = CHR ''/'');
               out = (if rooted then ''/'' else []) @
                     joinWith CHR ''/'' (clean_elems rooted (splitOn CHR ''/'' p) [])
           in if out = [] then ''.'' else out)"

text \<open>\<^verbatim>\<open>path.Join(elem...)\<close>: the empty elements are ignored, the others are joined by
  slashes and the result is cleaned; with nothing but empty elements the result is
  the empty string.\<close>

definition path_Join :: "string list \<Rightarrow> string" where
  "path_Join elem =
     (if concat elem = [] then []
      else path_Clean (joinWith CHR ''/'' (dropWhile (\<lambda>e. e = []) elem)))"

text \<open>\<^verbatim>\<open>path.Base\<close>: the last element of the path, trailing slashes removed first;
  \<^verbatim>\<open>.\<close> for the empty path and \<^verbatim>\<open>/\<close> for a path of slashes only.\<close>

definition path_Base :: "string \<Rightarrow> string" where
  "path_Base p =
     (if p = [] then ''.''
      else let p1 = rev (dropWhile (\<lambda>c. c = CHR ''/'') (rev p));
               p2 = rev (takeWhile (\<lambda>c. c \<noteq> CHR ''/'') (rev p1))
           in if p2 = [] then ''/'' else p2)"


section \<open>URLs: Go's \<^verbatim>\<open>net/url\<close> package\<close>

text \<open>
  \<^verbatim>\<open>url.Parse\<close> is modelled after the Go 1.21 sources. Of the parsed URL the program
  reads the field \<^verbatim>\<open>Path\<close> only; the user and host parts are validated, since an
  invalid authority makes \<^verbatim>\<open>Parse\<close> fail, but they are not kept.
\<close>

record URL =
  Scheme :: string
  Opaque :: string
  Path :: string
  RawQuery :: string
  Fragment :: string

definition emptyURL :: URL where
  "emptyURL = \<lparr>Scheme = [], Opaque = [], Path = [], RawQuery = [], Fragment = []\<rparr>"

definition isLetter :: "char \<Rightarrow> bool" where
  "isLetter c = (c \<in> set ''abcdefghijklmnopqrstuvwxyzABCDEFGHIJKLMNOPQRSTUVWXYZ'')"

definition isDigit :: "char \<Rightarrow> bool" where
  "isDigit c = (c \<in> set ''0123456789'')"

definition ishex :: "char \<Rightarrow> bool" where
  "ishex c = (c \<in> set ''0123456789abcdefABCDEF'')"

definition unhex :: "char \<Rightarrow> nat" where
  "unhex c =
     (case map_of (zip ''0123456789abcdefABCDEF''
                       [0, 1, 2, 3, 4, 5, 6, 7, 8, 9, 10, 11, 12, 13, 14, 15,
                        10, 11, 12, 13, 14, 15]) c of
        None \<Rightarrow> 0
      | Some v \<Rightarrow> v)"

text \<open>\<^verbatim>\<open>stringContainsCTLByte\<close>: a byte below the space or the byte \<^verbatim>\<open>0x7f\<close>.\<close>

definition stringContainsCTLByte :: "string \<Rightarrow> bool" where
  "stringContainsCTLByte s = list_ex (\<lambda>c. (of_char c :: nat) < 32 \<or> (of_char c :: nat) = 127) s"

text \<open>
  \<^verbatim>\<open>getScheme\<close> walks over the raw URL with the index \<open>i\<close>: letters go on; a digit,
  \<^verbatim>\<open>+\<close>, \<^verbatim>\<open>-\<close> or \<^verbatim>\<open>.\<close> goes on except in first place, where there is no scheme; a
  colon ends the scheme, and in first place it is an error; any other byte means there
  is no scheme.
\<close>

fun getScheme_loop :: "string \<Rightarrow> nat \<Rightarrow> string \<Rightarrow> (string \<times> string) option" where
  "getScheme_loop rawURL i [] = Some ([], rawURL)"
| "getScheme_loop rawURL i (c # cs) =
     (if isLetter c then getScheme_loop rawURL (Suc i) cs
      else if isDigit c \<or> c = CHR ''+'' \<or> c = CHR ''-'' \<or> c = CHR ''.'' then
        (if i = 0 then Some ([], rawURL) else getScheme_loop rawURL (Suc i) cs)
      else if c = CHR '':'' then
        (if i = 0 then None else Some (take i rawURL, drop (Suc i) rawURL))
      else Some ([], rawURL))"

definition getScheme :: "string \<Rightarrow> (string \<times> string) option" where
  "getScheme rawURL = getScheme_loop rawURL 0 rawURL"

text \<open>\<^verbatim>\<open>unescape\<close> in the modes for paths, fragments and user names: every \<^verbatim>\<open>%\<close> must
  be followed by two hexadecimal digits, and the three bytes stand for one.\<close>

fun unescape :: "string \<Rightarrow> string option" where
  "unescape [] = Some []"
| "unescape (c # s) =
     (if c = CHR ''%'' then
        (case s of
           h1 # h2 # s' \<Rightarrow>
             if ishex h1 \<and> ishex h2
             then map_option ((#) (char_of (unhex h1 * 16 + unhex h2))) (unescape s')
             else None
         | _ \<Rightarrow> None)
      else map_option ((#) c) (unescape s))"

text \<open>\<^verbatim>\<open>shouldEscape(c, encodeHost)\<close> is false for the bytes below.\<close>

definition hostByte :: "char \<Rightarrow> bool" where
  \<open>hostByte c = (isLetter c \<or> isDigit c \<or> c \<in> set ''!$&()*+,;=:[]<>"-_.~'' \<or> c = CHR 0x27)\<close>

text \<open>\<^verbatim>\<open>unescape\<close> in the mode for hosts succeeds: an escape must not stand for an ASCII
  byte, \<^verbatim>\<open>%25\<close> apart, and an ASCII byte must be one a host may hold.\<close>

fun validHostEscapes :: "string \<Rightarrow> bool" where
  "validHostEscapes [] = True"
| "validHostEscapes (c # s) =
     (if c = CHR ''%'' then
        (case s of
           h1 # h2 # s' \<Rightarrow>
             ishex h1 \<and> ishex h2 \<and> (unhex h1 \<ge> 8 \<or> [h1, h2] = ''25'') \<and> validHostEscapes s'
         | _ \<Rightarrow> False)
      else ((of_char c :: nat) \<ge> 128 \<or> hostByte c) \<and> validHostEscapes s)"

text \<open>The same in the mode for the zone of an IPv6 literal: an escape must stand for
  \<^verbatim>\<open>%\<close>, for a space or for a byte a host may hold.\<close>

fun validZoneEscapes :: "string \<Rightarrow> bool" where
  "validZoneEscapes [] = True"
| "validZoneEscapes (c # s) =
     (if c = CHR ''%'' then
        (case s of
           h1 # h2 # s' \<Rightarrow>
             ishex h1 \<and> ishex h2 \<and>
             ([h1, h2] = ''25'' \<or> unhex h1 * 16 + unhex h2 = 32 \<or>
              hostByte (char_of (unhex h1 * 16 + unhex h2))) \<and>
             validZoneEscapes s'
         | _ \<Rightarrow> False)
      else ((of_char c :: nat) \<ge> 128 \<or> hostByte c) \<and> validZoneEscapes s)"

definition validOptionalPort :: "string \<Rightarrow> bool" where
  "validOptionalPort port =
     (case port of [] \<Rightarrow> True | c # ds \<Rightarrow> c = CHR '':'' \<and> list_all isDigit ds)"

definition validUserinfo :: "string \<Rightarrow> bool" where
  \<open>validUserinfo s =
     list_all (\<lambda>c. isLetter c \<or> isDigit c \<or> c \<in> set ''-._:~!$&()*+,;=%@'' \<or> c = CHR 0x27) s\<close>

text \<open>The text after the last occurrence of \<open>sep\<close>, and the position of that
  occurrence.\<close>

definition afterLast :: "char \<Rightarrow> string \<Rightarrow> string" where
  "afterLast sep s = rev (takeWhile (\<lambda>c. c \<noteq> sep) (rev s))"

definition lastIndex :: "char \<Rightarrow> string \<Rightarrow> nat" where
  "lastIndex sep s = length s - Suc (length (afterLast sep s))"

text \<open>The position of the first occurrence of \<^verbatim>\<open>%25\<close>, if there is one.\<close>

fun index25 :: "string \<Rightarrow> nat option" where
  "index25 [] = None"
| "index25 (c # s) = (if prefix ''%25'' (c # s) then Some 0 else map_option Suc (index25 s))"

text \<open>\<^verbatim>\<open>parseHost\<close> succeeds.\<close>

definition parseHost_ok :: "string \<Rightarrow> bool" where
  "parseHost_ok host =
     (if prefix ''['' host then
        (if CHR '']'' \<notin> set host then False
         else let i = lastIndex CHR '']'' host in
           if \<not> validOptionalPort (drop (Suc i) host) then False
           else (case index25 (take i host) of
                   Some zone \<Rightarrow>
                     validHostEscapes (take zone host) \<and>
                     validZoneEscapes (take (i - zone) (drop zone host)) \<and>
                     validHostEscapes (drop i host)
                 | None \<Rightarrow> validHostEscapes host))
      else if CHR '':'' \<in> set host \<and> \<not> validOptionalPort (drop (lastIndex CHR '':'' host) host)
      then False
      else validHostEscapes host)"

text \<open>\<^verbatim>\<open>parseAuthority\<close> succeeds: the host after the last \<^verbatim>\<open>@\<close> parses, and the user
  information before it is made of permitted bytes and well-formed escapes.\<close>

definition parseAuthority_ok :: "string \<Rightarrow> bool" where
  "parseAuthority_ok authority =
     (if CHR ''@'' \<notin> set authority then parseHost_ok authority
      else let i = lastIndex CHR ''@'' authority; userinfo = take i authority in
        parseHost_ok (drop (Suc i) authority) \<and> validUserinfo userinfo \<and>
        (if CHR '':'' \<notin> set userinfo then unescape userinfo \<noteq> None
         else (case strings_Cut userinfo CHR '':'' of
                 (username, password, _) \<Rightarrow>
                   unescape username \<noteq> None \<and> unescape password \<noteq> None)))"

text \<open>
  \<^verbatim>\<open>parse(rawURL, false)\<close>, on the URL without its fragment: the scheme is split
  off, then the query at the first \<^verbatim>\<open>?\<close>; with a scheme and no leading slash the rest
  is opaque; a relative reference must not have a colon in its first segment; an
  authority follows a leading \<^verbatim>\<open>//\<close> up to the next slash; what is left is the path,
  which is unescaped.
\<close>

definition url_parse :: "string \<Rightarrow> URL option" where
  "url_parse rawURL =
     (if stringContainsCTLByte rawURL then None
      else if rawURL = ''*'' then Some (emptyURL\<lparr>Path := ''*''\<rparr>)
      else case getScheme rawURL of
        None \<Rightarrow> None
      | Some (scheme, rest0) \<Rightarrow>
          let (rest, rawQuery) =
                (if suffix ''?'' rest0 \<and> count_list rest0 CHR ''?'' = 1
                 then (butlast rest0, [])
                 else (case strings_Cut rest0 CHR ''?'' of (pre, post, _) \<Rightarrow> (pre, post)));
              url = emptyURL\<lparr>Scheme := strings_ToLower scheme, RawQuery := rawQuery\<rparr>
          in if \<not> prefix ''/'' rest \<and> scheme \<noteq> [] then Some (url\<lparr>Opaque := rest\<rparr>)
             else if \<not> prefix ''/'' rest \<and>
                     CHR '':'' \<in> set (fst (strings_Cut rest CHR ''/'')) then None
             else let (authority, rest') =
                        (if (scheme \<noteq> [] \<or> \<not> prefix ''///'' rest) \<and> prefix ''//'' rest
                         then (Some (takeWhile (\<lambda>c. c \<noteq> CHR ''/'') (drop 2 rest)),
                               dropWhile (\<lambda>c. c \<noteq> CHR ''/'') (drop 2 rest))
                         else (None, rest))
                  in if (case authority of None \<Rightarrow> False | Some a \<Rightarrow> \<not> parseAuthority_ok a)
                     then None
                     else (case unescape rest' of
                             None \<Rightarrow> None
                           | Some p \<Rightarrow> Some (url\<lparr>Path := p\<rparr>)))"

text \<open>\<^verbatim>\<open>url.Parse\<close>: the fragment is cut off at the first \<^verbatim>\<open>#\<close>, the rest is parsed,
  and a fragment that is not empty is unescaped.\<close>

definition url_Parse :: "string \<Rightarrow> URL option" where
  "url_Parse rawURL =
     (case strings_Cut rawURL CHR ''#'' of
        (u, frag, _) \<Rightarrow>
          (case url_parse u of
             None \<Rightarrow> None
           | Some url \<Rightarrow>
               if frag = [] then Some url
               else (case unescape frag of
                       None \<Rightarrow> None
                     | Some f \<Rightarrow> Some (url\<lparr>Fragment := f\<rparr>))))"


section \<open>File names\<close>

text \<open>\<^verbatim>\<open>getFileNamesFromURLs\<close> as in lines 77 to 91 of \<^verbatim>\<open>main.go\<close> (and in the two
  copies that follow it): the base name of the URL's path with spaces replaced, and
  the empty string for a URL that does not parse.\<close>

definition getFileNamesFromURLs :: "string \<Rightarrow> string" where
  "getFileNamesFromURLs urls =
     (case url_Parse urls of
        None \<Rightarrow> []
      | Some u \<Rightarrow> strings_ReplaceAll_space (path_Base (Path u)))"

text \<open>\<^verbatim>\<open>getFileNamesFromURLs\<close> as in lines 618 to 629: the last copy of the program
  lowers the case of the name as well.\<close>

definition getFileNamesFromURLs_618 :: "string \<Rightarrow> string" where
  "getFileNamesFromURLs_618 urls =
     (case url_Parse urls of
        None \<Rightarrow> []
      | Some u \<Rightarrow> strings_ToLower (strings_ReplaceAll_space (path_Base (Path u))))"


section \<open>The world outside the program\<close>

subsection \<open>The file system\<close>

text \<open>
  A file system maps cleaned paths to nodes. The working directory \<^verbatim>\<open>.\<close> and the root
  \<^verbatim>\<open>/\<close> are directories that always exist. Permissions, links and full disks are
  not modelled: a system call fails only for the empty name, for a missing entry, for
  a file where a directory is needed, for a directory where a file is needed, or for
  an entry that is there already. A name is looked up under its cleaned form, so
  \<^verbatim>\<open>a/../b\<close> is \<^verbatim>\<open>b\<close> whether \<^verbatim>\<open>a\<close> is there or not, where the kernel would fail on
  a missing \<^verbatim>\<open>a\<close>; the paths that \<^verbatim>\<open>downloadPDF\<close> creates come out of \<^verbatim>\<open>path.Join\<close> and
  are clean already.
\<close>

datatype node = File string | Dir

type_synonym filesystem = "string \<Rightarrow> node option"

datatype errno = ENOENT | ENOTDIR | EISDIR | EEXIST

definition lookup :: "filesystem \<Rightarrow> string \<Rightarrow> node option" where
  "lookup fs q = (if q = ''.'' \<or> q = ''/'' then Some Dir else fs q)"

text \<open>The directories above a cleaned path, outermost first: its proper prefixes that
  end before a slash.\<close>

definition parents :: "string \<Rightarrow> string list" where
  "parents q = map (\<lambda>i. take i q) (filter (\<lambda>i. q ! i = CHR ''/'') [1 ..< length q])"

text \<open>Walking down the directories above a path: the first one that is missing or is a
  file stops the walk.\<close>

fun walk :: "filesystem \<Rightarrow> string list \<Rightarrow> errno option" where
  "walk fs [] = None"
| "walk fs (d # ds) =
     (case lookup fs d of
        None \<Rightarrow> Some ENOENT
      | Some (File _) \<Rightarrow> Some ENOTDIR
      | Some Dir \<Rightarrow> walk fs ds)"

definition os_Stat :: "filesystem \<Rightarrow> string \<Rightarrow> errno + node" where
  "os_Stat fs name =
     (let q = path_Clean name in
      if name = [] then Inl ENOENT else
      case walk fs (parents q) of
        Some e \<Rightarrow> Inl e
      | None \<Rightarrow> (case lookup fs q of None \<Rightarrow> Inl ENOENT | Some n \<Rightarrow> Inr n))"

text \<open>\<^verbatim>\<open>os.IsNotExist(err)\<close> on the error of a system call; \<^verbatim>\<open>nil\<close> is not such an
  error.\<close>

definition os_IsNotExist :: "errno + 'a \<Rightarrow> bool" where
  "os_IsNotExist r = (case r of Inl e \<Rightarrow> e = ENOENT | Inr _ \<Rightarrow> False)"

text \<open>\<^verbatim>\<open>os.Mkdir\<close> makes one directory under a directory that exists.\<close>

definition os_Mkdir :: "filesystem \<Rightarrow> string \<Rightarrow> errno + filesystem" where
  "os_Mkdir fs name =
     (let q = path_Clean name in
      if name = [] then Inl ENOENT else
      case walk fs (parents q) of
        Some e \<Rightarrow> Inl e
      | None \<Rightarrow> (case lookup fs q of None \<Rightarrow> Inr (fs(q \<mapsto> Dir)) | Some _ \<Rightarrow> Inl EEXIST))"

text \<open>\<^verbatim>\<open>os.MkdirAll\<close> makes a directory and every directory above it that is missing;
  a directory that is there already is left as it is, and a file in the way is an
  error.\<close>

fun mkdirs :: "filesystem \<Rightarrow> string list \<Rightarrow> errno + filesystem" where
  "mkdirs fs [] = Inr fs"
| "mkdirs fs (d # ds) =
     (case lookup fs d of
        None \<Rightarrow> mkdirs (fs(d \<mapsto> Dir)) ds
      | Some (File _) \<Rightarrow> Inl ENOTDIR
      | Some Dir \<Rightarrow> mkdirs fs ds)"

definition os_MkdirAll :: "filesystem \<Rightarrow> string \<Rightarrow> errno + filesystem" where
  "os_MkdirAll fs name =
     (let q = path_Clean name in
      if name = [] then Inl ENOENT else mkdirs fs (parents q @ [q]))"

text \<open>\<^verbatim>\<open>os.Create\<close> creates the file empty, or truncates the file that is there.\<close>

definition os_Create :: "filesystem \<Rightarrow> string \<Rightarrow> errno + filesystem" where
  "os_Create fs name =
     (let q = path_Clean name in
      if name = [] then Inl ENOENT else
      case walk fs (parents q) of
        Some e \<Rightarrow> Inl e
      | None \<Rightarrow> (case lookup fs q of Some Dir \<Rightarrow> Inl EISDIR | _ \<Rightarrow> Inr (fs(q \<mapsto> File []))))"

text \<open>\<^verbatim>\<open>ioutil.ReadFile\<close>.\<close>

definition ioutil_ReadFile :: "filesystem \<Rightarrow> string \<Rightarrow> errno + string" where
  "ioutil_ReadFile fs name =
     (case os_Stat fs name of
        Inl e \<Rightarrow> Inl e
      | Inr Dir \<Rightarrow> Inl EISDIR
      | Inr (File content) \<Rightarrow> Inr content)"

subsection \<open>The network\<close>

text \<open>
  \<^verbatim>\<open>http.Get\<close> either fails in transport or yields a response: a status code and a
  body. The body is a stream: it is delivered whole, or it breaks with a read error
  after the bytes given.
\<close>

datatype body = Complete string | Broken string

datatype http_result = TransportError | Response nat body

type_synonym network = "string \<Rightarrow> http_result"

text \<open>The bytes a reader gets out of a body, and whether reading ends in an error.\<close>

fun delivered :: "body \<Rightarrow> string" where
  "delivered (Complete b) = b"
| "delivered (Broken b) = b"

fun breaks :: "body \<Rightarrow> bool" where
  "breaks (Complete b) = False"
| "breaks (Broken b) = True"

subsection \<open>Errors, log lines and effects\<close>

datatype error =
    ErrDownloadingPDF           \<comment> \<open>\<^verbatim>\<open>error downloading PDF\<close>\<close>
  | ErrStatusCode nat           \<comment> \<open>\<^verbatim>\<open>status code error\<close>\<close>
  | ErrCreatingFolder errno     \<comment> \<open>\<^verbatim>\<open>error creating folder\<close>\<close>
  | ErrCreatingFile errno       \<comment> \<open>\<^verbatim>\<open>error creating file\<close>\<close>
  | ErrSavingPDF                \<comment> \<open>\<^verbatim>\<open>error saving PDF\<close>\<close>
  | ErrCouldNotReadFile errno   \<comment> \<open>\<^verbatim>\<open>could not read file\<close>\<close>
  | ErrGet                      \<comment> \<open>the error of \<^verbatim>\<open>http.Get\<close>, as it is\<close>
  | ErrBadStatus nat            \<comment> \<open>\<^verbatim>\<open>bad status\<close>\<close>
  | ErrOs errno                 \<comment> \<open>the error of a system call, as it is\<close>
  | ErrCopy                     \<comment> \<open>the error of \<^verbatim>\<open>io.Copy\<close>, as it is\<close>
  | ErrFetchingPage             \<comment> \<open>\<^verbatim>\<open>error fetching page\<close>\<close>
  | ErrLoadingHTML              \<comment> \<open>\<^verbatim>\<open>error loading HTML\<close>\<close>

datatype logline =
    AlreadyExists string        \<comment> \<open>\<^verbatim>\<open>File %s already exists, skipping download.\<close>\<close>
  | FailedToDownload string error   \<comment> \<open>\<^verbatim>\<open>Failed to download %s: %v\<close>\<close>
  | DownloadedSuccessfully string   \<comment> \<open>\<^verbatim>\<open>Downloaded %s successfully\<close>\<close>
  | ErrorExtractingURLs error   \<comment> \<open>\<^verbatim>\<open>Error extracting URLs: %v\<close>\<close>
  | LogError errno              \<comment> \<open>\<^verbatim>\<open>log.Println(err)\<close> in \<^verbatim>\<open>createDirectory\<close>\<close>

text \<open>What the program does to the world, in the order in which it does it: each
  request sent, each call that changes the file system, each line logged.\<close>

datatype event =
    HttpGet string
  | Mkdir string
  | MkdirAll string
  | Create string
  | Copy string string          \<comment> \<open>\<^verbatim>\<open>io.Copy\<close>: the file and the bytes written to it\<close>
  | Log logline

record world =
  fs :: filesystem
  trace :: "event list"

definition emit :: "event \<Rightarrow> world \<Rightarrow> world" where
  "emit e w = w\<lparr>trace := trace w @ [e]\<rparr>"

text \<open>\<^verbatim>\<open>io.Copy(out, resp.Body)\<close> writes what the body delivers to the file created
  at \<open>name\<close>, and fails when the body breaks.\<close>

definition io_Copy :: "string \<Rightarrow> body \<Rightarrow> world \<Rightarrow> bool \<times> world" where
  "io_Copy name b w =
     (breaks b,
      emit (Copy name (delivered b)) (w\<lparr>fs := (fs w)(path_Clean name \<mapsto> File (delivered b))\<rparr>))"


section \<open>The program\<close>

subsection \<open>Link extraction\<close>

text \<open>
  The loop of \<^verbatim>\<open>ExtractURLsFromHTMLFile\<close> over the matches of the pattern
  \<^verbatim>\<open>(?:href|src)=["'](https?:\/\/|\/\/)?([^"']+)["']\<close>, which is \<^const>\<open>urlRegex\<close>: a match
  has the whole text in place 0, the scheme in place 1 and the path in place 2.
\<close>

fun ExtractURLs_loop :: "string list list \<Rightarrow> string list \<Rightarrow> string list" where
  "ExtractURLs_loop [] urls = urls"
| "ExtractURLs_loop (match # ms) urls =
     (if length match \<ge> 3 then
        (let scheme = match ! 1;
             path = match ! 2;
             fullURL = (if strings_HasPrefix scheme ''http'' then scheme @ path
                        else if scheme = ''//'' then ''https://'' @ path
                        else path)
         in if strings_Contains fullURL ''.pdf''
            then ExtractURLs_loop ms (urls @ [fullURL])
            else ExtractURLs_loop ms urls)
      else ExtractURLs_loop ms urls)"

text \<open>The scheme group of a match whose quoted value is \<open>v\<close>: a scheme is
  recognised only when something follows it, since the path group must not be empty.\<close>

definition schemeOf :: "string \<Rightarrow> string" where
  "schemeOf v =
     (if prefix ''https://'' v \<and> v \<noteq> ''https://'' then ''https://''
      else if prefix ''http://'' v \<and> v \<noteq> ''http://'' then ''http://''
      else if prefix ''//'' v \<and> v \<noteq> ''//'' then ''//''
      else [])"

text \<open>The value of \<^verbatim>\<open>fullURL\<close> that the loop computes for a match.\<close>

definition absoluteURL :: "string list \<Rightarrow> string" where
  "absoluteURL match =
     (if strings_HasPrefix (match ! 1) ''http'' then match ! 1 @ match ! 2
      else if match ! 1 = ''//'' then ''https://'' @ match ! 2
      else match ! 2)"

text \<open>The extractor on the content of the file.\<close>

definition ExtractURLs :: "string \<Rightarrow> string list" where
  "ExtractURLs content = ExtractURLs_loop (FindAllStringSubmatch urlRegex 2 content) []"

definition ExtractURLsFromHTMLFile :: "filesystem \<Rightarrow> string \<Rightarrow> error + string list" where
  "ExtractURLsFromHTMLFile fsys filePath =
     (case ioutil_ReadFile fsys filePath of
        Inl err \<Rightarrow> Inl (ErrCouldNotReadFile err)
      | Inr content \<Rightarrow> Inr (ExtractURLs content))"

subsection \<open>The link extractor of the copy that uses goquery\<close>

text \<open>
  \<^verbatim>\<open>getSDSLinks\<close> (lines 381 to 423) hands the page to the HTML parser of the
  goquery library, which is not part of the program. The parser is a parameter: for
  a page it gives, for each \<^verbatim>\<open>a\<close> element in document order, the value of its
  \<^verbatim>\<open>href\<close> attribute, or \<open>None\<close> where the element has none. The function below is
  the body of \<^verbatim>\<open>Each\<close>, run over these elements.
\<close>

fun getSDSLinks_Each :: "string option list \<Rightarrow> string list \<Rightarrow> string list" where
  "getSDSLinks_Each [] pdfLinks = pdfLinks"
| "getSDSLinks_Each (None # sel) pdfLinks = getSDSLinks_Each sel pdfLinks"
| "getSDSLinks_Each (Some href # sel) pdfLinks =
     (if strings_Contains (strings_ToLower href) ''.pdf'' then
        (let href1 = (if strings_HasPrefix href ''//'' then ''https:'' @ href else href);
             href2 = (if strings_HasPrefix href1 ''/''
                      then ''https://www.chemicalguys.com'' @ href1 else href1)
         in if strings_HasPrefix href2 ''http://'' \<or> strings_HasPrefix href2 ''https://''
            then getSDSLinks_Each sel (pdfLinks @ [href2])
            else getSDSLinks_Each sel pdfLinks)
      else getSDSLinks_Each sel pdfLinks)"

definition getSDSLinks ::
  "network \<Rightarrow> (string \<Rightarrow> string option list) \<Rightarrow> error + string list" where
  "getSDSLinks net anchors =
     (case net ''https://www.chemicalguys.com/pages/material-safety-data-sheets'' of
        TransportError \<Rightarrow> Inl ErrFetchingPage
      | Response statusCode b \<Rightarrow>
          if statusCode \<noteq> 200 then Inl (ErrStatusCode statusCode)
          else if breaks b then Inl ErrLoadingHTML
          else Inr (getSDSLinks_Each (anchors (delivered b)) []))"

subsection \<open>Downloading\<close>

definition fileExists :: "filesystem \<Rightarrow> string \<Rightarrow> bool" where
  "fileExists fsys filename =
     (case os_Stat fsys filename of Inl err \<Rightarrow> False | Inr info \<Rightarrow> info \<noteq> Dir)"

text \<open>
  \<^verbatim>\<open>downloadPDF\<close> as in lines 107 to 149: the result is the error, \<open>None\<close> for
  \<^verbatim>\<open>nil\<close>, and the world after the call.
\<close>

definition downloadPDF :: "network \<Rightarrow> string \<Rightarrow> string \<Rightarrow> world \<Rightarrow> error option \<times> world" where
  "downloadPDF net pdfURL folder w =
     (let fileName = getFileNamesFromURLs pdfURL;
          fullPath = path_Join [folder, fileName]
      in if fileExists (fs w) fullPath
         then (None, emit (Log (AlreadyExists fullPath)) w)
         else
           let w1 = emit (HttpGet pdfURL) w in
           case net pdfURL of
             TransportError \<Rightarrow> (Some ErrDownloadingPDF, w1)
           | Response statusCode respBody \<Rightarrow>
               if statusCode \<noteq> 200 then (Some (ErrStatusCode statusCode), w1)
               else
                 (case (if os_IsNotExist (os_Stat (fs w1) folder)
                        then (case os_MkdirAll (fs w1) folder of
                                Inl err \<Rightarrow> (Some err, emit (MkdirAll folder) w1)
                              | Inr fs2 \<Rightarrow> (None, emit (MkdirAll folder) (w1\<lparr>fs := fs2\<rparr>)))
                        else (None, w1)) of
                    (Some err, w2) \<Rightarrow> (Some (ErrCreatingFolder err), w2)
                  | (None, w2) \<Rightarrow>
                      (case os_Create (fs w2) fullPath of
                         Inl err \<Rightarrow> (Some (ErrCreatingFile err), emit (Create fullPath) w2)
                       | Inr fs3 \<Rightarrow>
                           (case io_Copy fullPath respBody
                                   (emit (Create fullPath) (w2\<lparr>fs := fs3\<rparr>)) of
                              (True, w4) \<Rightarrow> (Some ErrSavingPDF, w4)
                            | (False, w4) \<Rightarrow> (None, w4)))))"

subsection \<open>The main program\<close>

definition createDirectory :: "string \<Rightarrow> world \<Rightarrow> world" where
  "createDirectory path w =
     (case os_Mkdir (fs w) path of
        Inl err \<Rightarrow> emit (Log (LogError err)) (emit (Mkdir path) w)
      | Inr fs1 \<Rightarrow> emit (Mkdir path) (w\<lparr>fs := fs1\<rparr>))"

definition downloadFileUsingURLandFilePath ::
  "network \<Rightarrow> string \<Rightarrow> string \<Rightarrow> world \<Rightarrow> error option \<times> world" where
  "downloadFileUsingURLandFilePath net url filepath w =
     (let w1 = emit (HttpGet url) w in
      case net url of
        TransportError \<Rightarrow> (Some ErrGet, w1)
      | Response statusCode respBody \<Rightarrow>
          if statusCode \<noteq> 200 then (Some (ErrBadStatus statusCode), w1)
          else
            (case os_Create (fs w1) filepath of
               Inl err \<Rightarrow> (Some (ErrOs err), emit (Create filepath) w1)
             | Inr fs2 \<Rightarrow>
                 (case io_Copy filepath respBody (emit (Create filepath) (w1\<lparr>fs := fs2\<rparr>)) of
                    (True, w3) \<Rightarrow> (Some ErrCopy, w3)
                  | (False, w3) \<Rightarrow> (None, w3))))"

text \<open>The loop of \<^verbatim>\<open>main\<close> over the links (lines 181 to 188).\<close>

fun main_loop :: "network \<Rightarrow> string list \<Rightarrow> string \<Rightarrow> world \<Rightarrow> world" where
  "main_loop net [] folderName w = w"
| "main_loop net (link # links) folderName w =
     (case downloadPDF net link folderName w of
        (Some err, w') \<Rightarrow> main_loop net links folderName (emit (Log (FailedToDownload link err)) w')
      | (None, w') \<Rightarrow> main_loop net links folderName (emit (Log (DownloadedSuccessfully link)) w'))"

definition main :: "network \<Rightarrow> world \<Rightarrow> world" where
  "main net w =
     (let folderName = ''PDFs'';
          w1 = createDirectory folderName w;
          urlFromChemicalGuys = ''https://www.chemicalguys.com/pages/material-safety-data-sheets'';
          localURLFilePath = path_Join [''chemical_guys_sds_page.html''];
          w2 = snd (downloadFileUsingURLandFilePath net urlFromChemicalGuys localURLFilePath w1)
      in case ExtractURLsFromHTMLFile (fs w2) localURLFilePath of
           Inl err \<Rightarrow> main_loop net [] folderName (emit (Log (ErrorExtractingURLs err)) w2)
         | Inr links \<Rightarrow> main_loop net links folderName w2)"


section \<open>Notions used in the statements\<close>

text \<open>The path of the local file that \<^const>\<open>downloadPDF\<close> computes for a URL.\<close>

abbreviation fullPathOf :: "string \<Rightarrow> string \<Rightarrow> string" where
  "fullPathOf folder pdfURL \<equiv> path_Join [folder, getFileNamesFromURLs pdfURL]"

text \<open>The lines that \<^const>\<open>main_loop\<close> logs for each link: the link and the error of
  its download, \<open>None\<close> for a link reported as downloaded.\<close>

fun outcome :: "event \<Rightarrow> (string \<times> error option) option" where
  "outcome (Log (FailedToDownload link err)) = Some (link, Some err)"
| "outcome (Log (DownloadedSuccessfully link)) = Some (link, None)"
| "outcome e = None"

definition outcomes :: "event list \<Rightarrow> (string \<times> error option) list" where
  "outcomes tr = List.map_filter outcome tr"

text \<open>The file name that section 4.3 of the specification describes: the text behind
  the last slash of the URL, its query string and fragment cut off, spaces replaced
  and letters lowered.\<close>

definition spec_lastPathSegment :: "string \<Rightarrow> string" where
  "spec_lastPathSegment url =
     afterLast CHR ''/'' (takeWhile (\<lambda>c. c \<noteq> CHR ''?'') (takeWhile (\<lambda>c. c \<noteq> CHR ''#'') url))"

definition spec_filename :: "string \<Rightarrow> string" where
  "spec_filename url = strings_ToLower (strings_ReplaceAll_space (spec_lastPathSegment url))"

text \<open>Worlds for the examples: an empty working directory; a working directory in
  which \<^verbatim>\<open>PDFs/a.pdf\<close> is there already; and a network with three documents, the
  second of which is not found.\<close>

definition example_world :: world where
  "example_world = \<lparr>fs = Map.empty, trace = []\<rparr>"

definition cached_world :: world where
  "cached_world = \<lparr>fs = [''PDFs'' \<mapsto> Dir, ''PDFs/a.pdf'' \<mapsto> File ''old''], trace = []\<rparr>"

definition example_net :: network where
  "example_net url =
     (if url = ''https://x.com/a.pdf'' then Response 200 (Complete ''%PDF-a'')
      else if url = ''https://x.com/b.pdf'' then Response 404 (Complete ''Not Found'')
      else if url = ''https://x.com/c.pdf'' then Response 200 (Complete ''%PDF-c'')
      else if url = ''https://x.com/d.pdf'' then Response 200 (Broken ''%PD'')
      else TransportError)"

section \<open>Properties of the pattern matcher\<close>

lemma matches_length_le:
  "(cs', s') \<in> set (matches r s cs) \<Longrightarrow> length s' \<le> length s"
proof (induction r arbitrary: s cs cs' s')
  case (Str l)
  then show ?case by (auto split: if_splits)
next
  case (OneOf cls)
  then show ?case by (auto split: list.splits if_splits)
next
  case (PlusNoneOf cls)
  then show ?case by auto
next
  case (Seq r1 r2)
  then show ?case by (fastforce dest: order_trans)
next
  case (Alt r1 r2)
  then show ?case by auto
next
  case (Opt r)
  then show ?case by auto
next
  case (Cap i r)
  then show ?case by auto
qed

lemma matches_scheme:
  "matches (Alt (Seq (Str ''http'') (Seq (Opt (Str ''s'')) (Str ''://''))) (Str ''//'')) t cs =
     (if prefix ''https://'' t then [(cs, drop 8 t)]
      else if prefix ''http://'' t then [(cs, drop 7 t)]
      else if prefix ''//'' t then [(cs, drop 2 t)] else [])"
proof -
  consider (https) u where "t = ''https://'' @ u"
    | (http) u where "t = ''http://'' @ u"
    | (rel) u where "t = ''//'' @ u"
    | (none) "\<not> prefix ''https://'' t" "\<not> prefix ''http://'' t" "\<not> prefix ''//'' t"
    by (auto simp: prefix_def)
  then show ?thesis
  proof cases
    case https
    then show ?thesis by simp
  next
    case http
    then show ?thesis by simp
  next
    case rel
    then show ?thesis by simp
  next
    case none
    show ?thesis
    proof (cases "prefix ''http'' t")
      case False
      with none show ?thesis by simp
    next
      case True
      then obtain u where u: "t = ''http'' @ u" by (auto simp: prefix_def)
      show ?thesis
      proof (cases u)
        case Nil
        with u none show ?thesis by simp
      next
        case (Cons c u')
        with u none show ?thesis by auto
      qed
    qed
  qed
qed

lemma concat_map_Nil: "(\<And>x. x \<in> set xs \<Longrightarrow> f x = []) \<Longrightarrow> concat (map f xs) = []"
  by (induction xs) auto

lemma matches_value:
  fixes s :: string
  defines "P \<equiv> (\<lambda>c. c \<notin> set [CHR 0x22, CHR 0x27])"
  shows "matches (Seq (Cap 2 (PlusNoneOf [CHR 0x22, CHR 0x27])) (OneOf [CHR 0x22, CHR 0x27])) s cs =
     (if takeWhile P s \<noteq> [] \<and> dropWhile P s \<noteq> []
      then [((2, takeWhile P s) # cs, tl (dropWhile P s))] else [])"
proof -
  let ?Q = "[CHR 0x22, CHR 0x27]"
  let ?n = "length (takeWhile P s)"
  let ?f = "\<lambda>k. matches (OneOf ?Q) (drop k s) ((2, take k s) # cs)"
  have len: "?n \<le> length s" by (rule length_takeWhile_le)
  have expand: "matches (Seq (Cap 2 (PlusNoneOf ?Q)) (OneOf ?Q)) s cs
      = concat (map ?f (rev [1 ..< Suc ?n]))"
  proof -
    have "take (length s - (length s - k)) s = take k s" if "k < Suc ?n" for k
      using that len by simp
    then show ?thesis
      apply (simp add: P_def comp_def del: upt_Suc)
      apply (rule arg_cong[where f = concat])
      apply (rule map_cong[OF refl])
      apply (auto split: list.splits)
      done
  qed
  have small: "?f k = []" if "k \<in> set (rev [1 ..< ?n])" for k
  proof -
    from that have k: "k < ?n" by simp
    then have "drop k s = s ! k # drop (Suc k) s" using len by (simp add: Cons_nth_drop_Suc)
    moreover have "P (s ! k)" using k
      by (metis nth_mem set_takeWhileD takeWhile_nth)
    ultimately show ?thesis by (simp add: P_def)
  qed
  show ?thesis
  proof (cases "?n = 0")
    case True
    then show ?thesis unfolding expand by simp
  next
    case False
    then have "rev [1 ..< Suc ?n] = ?n # rev [1 ..< ?n]"
      by (cases "takeWhile P s") simp_all
    then have "concat (map ?f (rev [1 ..< Suc ?n])) = ?f ?n @ concat (map ?f (rev [1 ..< ?n]))"
      by simp
    also have "concat (map ?f (rev [1 ..< ?n])) = []"
      using small by (rule concat_map_Nil)
    finally have e: "matches (Seq (Cap 2 (PlusNoneOf ?Q)) (OneOf ?Q)) s cs = ?f ?n"
      unfolding expand by simp
    have d: "drop ?n s = dropWhile P s" by (rule dropWhile_eq_drop[symmetric])
    have t: "take ?n s = takeWhile P s" by (rule takeWhile_eq_take[symmetric])
    show ?thesis
    proof (cases "dropWhile P s")
      case Nil
      show ?thesis unfolding e d t Nil by simp
    next
      case (Cons c rest)
      then have "\<not> P c" by (metis hd_dropWhile list.sel(1) list.distinct(1))
      then have c: "c \<in> set [CHR 0x22, CHR 0x27]" by (simp add: P_def)
      from False have ne: "takeWhile P s \<noteq> []" by simp
      show ?thesis unfolding e d t Cons using c ne by simp
    qed
  qed
qed

lemma prefix_before_quote:
  "q \<notin> set l \<Longrightarrow> prefix l (v @ q # rest) = prefix l v"
  by (auto simp: prefix_append prefix_Cons)

lemma takeWhile_value:
  assumes "\<forall>c\<in>set v. c \<noteq> CHR 0x22 \<and> c \<noteq> CHR 0x27" "q = CHR 0x22 \<or> q = CHR 0x27"
  shows "takeWhile (\<lambda>c. c \<notin> set [CHR 0x22, CHR 0x27]) (v @ q # rest) = v"
    and "dropWhile (\<lambda>c. c \<notin> set [CHR 0x22, CHR 0x27]) (v @ q # rest) = q # rest"
  using assms by (auto simp: takeWhile_append2 dropWhile_append2)

lemma matches_value_at:
  assumes "\<forall>c\<in>set v. c \<noteq> CHR 0x22 \<and> c \<noteq> CHR 0x27" "q = CHR 0x22 \<or> q = CHR 0x27"
  shows "matches (Seq (Cap 2 (PlusNoneOf [CHR 0x22, CHR 0x27])) (OneOf [CHR 0x22, CHR 0x27]))
           (v @ q # rest) cs = (if v = [] then [] else [((2, v) # cs, rest)])"
  unfolding matches_value takeWhile_value[OF assms] by simp

lemma matches_Seq_Opt_Cap:
  "matches (Seq (Opt (Cap i S)) V) s cs =
     concat (map (\<lambda>(cs', s'). matches V s' ((i, take (length s - length s') s) # cs'))
                 (matches S s cs)) @ matches V s cs"
  by (simp add: comp_def case_prod_unfold)

lemma matches_tail:
  assumes v: "v \<noteq> []" "\<forall>c\<in>set v. c \<noteq> CHR 0x22 \<and> c \<noteq> CHR 0x27"
    and q: "q = CHR 0x22 \<or> q = CHR 0x27"
  shows "\<exists>more.
     matches (Seq (Opt (Cap 1 (Alt (Seq (Str ''http'') (Seq (Opt (Str ''s'')) (Str ''://'')))
                                  (Str ''//''))))
             (Seq (Cap 2 (PlusNoneOf [CHR 0x22, CHR 0x27])) (OneOf [CHR 0x22, CHR 0x27])))
        (v @ q # rest) cs
     = ((2, drop (length (schemeOf v)) v) # (if schemeOf v = [] then cs else (1, schemeOf v) # cs),
        rest) # more"
proof -
  let ?S = "Alt (Seq (Str ''http'') (Seq (Opt (Str ''s'')) (Str ''://''))) (Str ''//'')"
  let ?V = "Seq (Cap 2 (PlusNoneOf [CHR 0x22, CHR 0x27])) (OneOf [CHR 0x22, CHR 0x27])"
  let ?s = "v @ q # rest"
  have p1: "prefix ''https://'' ?s = prefix ''https://'' v"
    using q by (intro prefix_before_quote) auto
  have p2: "prefix ''http://'' ?s = prefix ''http://'' v"
    using q by (intro prefix_before_quote) auto
  have p3: "prefix ''//'' ?s = prefix ''//'' v"
    using q by (intro prefix_before_quote) auto
  have whole: "matches ?V ?s cs = [((2, v) # cs, rest)]"
    using matches_value_at[OF v(2) q] v(1) by simp
  have unfold: "matches (Seq (Opt (Cap 1 ?S)) ?V) ?s cs =
      concat (map (\<lambda>(cs', s'). matches ?V s' ((1, take (length ?s - length s') ?s) # cs'))
                  (matches ?S ?s cs)) @ matches ?V ?s cs"
    by (rule matches_Seq_Opt_Cap)
  consider (https) r where "v = ''https://'' @ r"
    | (http) r where "v = ''http://'' @ r"
    | (rel) r where "v = ''//'' @ r"
    | (none) "\<not> prefix ''https://'' v" "\<not> prefix ''http://'' v" "\<not> prefix ''//'' v"
    by (auto simp: prefix_def)
  then show ?thesis
  proof cases
    case https
    have r: "\<forall>c\<in>set r. c \<noteq> CHR 0x22 \<and> c \<noteq> CHR 0x27" using v(2) https by simp
    have ms: "matches ?S ?s cs = [(cs, r @ q # rest)]"
      unfolding matches_scheme p1 using https by simp
    have "matches (Seq (Opt (Cap 1 ?S)) ?V) ?s cs =
        matches ?V (r @ q # rest) ((1, ''https://'') # cs) @ [((2, v) # cs, rest)]"
      unfolding unfold whole ms using https by (simp del: matches.simps)
    then show ?thesis
      unfolding matches_value_at[OF r q] using https by (cases r) (simp_all add: schemeOf_def del: matches.simps)
  next
    case http
    have r: "\<forall>c\<in>set r. c \<noteq> CHR 0x22 \<and> c \<noteq> CHR 0x27" using v(2) http by simp
    have ms: "matches ?S ?s cs = [(cs, r @ q # rest)]"
      unfolding matches_scheme p1 p2 using http by simp
    have "matches (Seq (Opt (Cap 1 ?S)) ?V) ?s cs =
        matches ?V (r @ q # rest) ((1, ''http://'') # cs) @ [((2, v) # cs, rest)]"
      unfolding unfold whole ms using http by (simp del: matches.simps)
    then show ?thesis
      unfolding matches_value_at[OF r q] using http by (cases r) (simp_all add: schemeOf_def del: matches.simps)
  next
    case rel
    have r: "\<forall>c\<in>set r. c \<noteq> CHR 0x22 \<and> c \<noteq> CHR 0x27" using v(2) rel by simp
    have ms: "matches ?S ?s cs = [(cs, r @ q # rest)]"
      unfolding matches_scheme p1 p2 p3 using rel by simp
    have "matches (Seq (Opt (Cap 1 ?S)) ?V) ?s cs =
        matches ?V (r @ q # rest) ((1, ''//'') # cs) @ [((2, v) # cs, rest)]"
      unfolding unfold whole ms using rel by (simp del: matches.simps)
    then show ?thesis
      unfolding matches_value_at[OF r q] using rel by (cases r) (simp_all add: schemeOf_def del: matches.simps)
  next
    case none
    have ms: "matches ?S ?s cs = []"
      unfolding matches_scheme p1 p2 p3 using none by simp
    have "matches (Seq (Opt (Cap 1 ?S)) ?V) ?s cs = [((2, v) # cs, rest)]"
      unfolding unfold whole ms by (simp del: matches.simps)
    then show ?thesis using none by (simp add: schemeOf_def del: matches.simps)
  qed
qed

lemma matches_urlRegex_attr:
  assumes "attr = ''href'' \<or> attr = ''src''" "q1 = CHR 0x22 \<or> q1 = CHR 0x27"
  shows "matches urlRegex (attr @ ''='' @ q1 # t) [] =
     matches (Seq (Opt (Cap 1 (Alt (Seq (Str ''http'') (Seq (Opt (Str ''s'')) (Str ''://'')))
                                  (Str ''//''))))
             (Seq (Cap 2 (PlusNoneOf [CHR 0x22, CHR 0x27])) (OneOf [CHR 0x22, CHR 0x27]))) t []"
  using assms unfolding urlRegex_def
  by (subst matches.simps(4), subst matches.simps(5), subst matches.simps(1), subst matches.simps(1),
      subst matches.simps(4), subst matches.simps(1), subst matches.simps(4), subst matches.simps(2))
     (auto simp del: matches.simps)

lemma matchHere_urlRegex_attr:
  assumes a: "attr = ''href'' \<or> attr = ''src''" and q1: "q1 = CHR 0x22 \<or> q1 = CHR 0x27"
    and v: "v \<noteq> []" "\<forall>c\<in>set v. c \<noteq> CHR 0x22 \<and> c \<noteq> CHR 0x27"
    and q2: "q2 = CHR 0x22 \<or> q2 = CHR 0x27"
  shows "matchHere urlRegex 2 (attr @ ''='' @ q1 # v @ q2 # rest) =
     Some ([attr @ ''='' @ q1 # v @ [q2], schemeOf v, drop (length (schemeOf v)) v], rest)"
proof -
  define s where "s = attr @ ''='' @ q1 # v @ q2 # rest"
  obtain more where m: "matches urlRegex s [] =
      ((2, drop (length (schemeOf v)) v) # (if schemeOf v = [] then [] else [(1, schemeOf v)]),
        rest) # more"
    unfolding s_def matches_urlRegex_attr[OF a q1]
    using matches_tail[OF v q2, of rest "[]"] by blast
  have up: "[1 ..< Suc 2] = [1, 2::nat]" by (simp add: upt_rec)
  have "s = (attr @ ''='' @ q1 # v @ [q2]) @ rest" by (simp add: s_def)
  then have whole: "take (length s - length rest) s = attr @ ''='' @ q1 # v @ [q2]"
    by (metis add_diff_cancel_right' append_eq_conv_conj length_append)
  have "matchHere urlRegex 2 s =
     Some ([attr @ ''='' @ q1 # v @ [q2], schemeOf v, drop (length (schemeOf v)) v], rest)"
    unfolding matchHere_def m up by (simp add: group_def whole)
  then show ?thesis by (simp only: s_def)
qed

lemma matchHere_urlRegex_None:
  assumes "\<not> prefix ''href='' s" "\<not> prefix ''src='' s"
  shows "matchHere urlRegex 2 s = None"
proof -
  have "matches urlRegex s [] = []"
  proof (cases "prefix ''href'' s")
    case True
    then obtain u where u: "s = ''href'' @ u" by (auto simp: prefix_def)
    with assms have "\<not> prefix ''='' u" by simp
    then show ?thesis unfolding urlRegex_def u
      by (subst matches.simps(4), subst matches.simps(5), subst matches.simps(1), subst matches.simps(1),
      subst matches.simps(4), subst matches.simps(1)) (simp del: matches.simps)
  next
    case False
    show ?thesis
    proof (cases "prefix ''src'' s")
      case True
      then obtain u where u: "s = ''src'' @ u" by (auto simp: prefix_def)
      with assms have "\<not> prefix ''='' u" by simp
      then show ?thesis unfolding urlRegex_def u
        by (subst matches.simps(4), subst matches.simps(5), subst matches.simps(1), subst matches.simps(1),
          subst matches.simps(4), subst matches.simps(1)) (simp del: matches.simps)
    next
      case nosrc: False
      with False show ?thesis unfolding urlRegex_def
        by (subst matches.simps(4), subst matches.simps(5), subst matches.simps(1), subst matches.simps(1))
          (simp del: matches.simps)
    qed
  qed
  then show ?thesis by (simp add: matchHere_def)
qed

lemma matchHere_urlRegex_progress:
  assumes "matchHere urlRegex 2 s = Some (m, rest)"
  shows "length rest < length s"
proof -
  from assms obtain cs more where m: "matches urlRegex s [] = (cs, rest) # more"
    by (auto simp: matchHere_def split: list.splits)
  then have mem: "(cs, rest) \<in> set (matches urlRegex s [])" by simp
  let ?R = "Seq (Str ''='')
    (Seq (OneOf [CHR 0x22, CHR 0x27])
    (Seq (Opt (Cap 1 (Alt (Seq (Str ''http'') (Seq (Opt (Str ''s'')) (Str ''://'')))
                          (Str ''//''))))
    (Seq (Cap 2 (PlusNoneOf [CHR 0x22, CHR 0x27]))
         (OneOf [CHR 0x22, CHR 0x27]))))"
  have "matches urlRegex s [] =
      concat (map (\<lambda>(cs', s'). matches ?R s' cs') (matches (Alt (Str ''href'') (Str ''src'')) s []))"
    unfolding urlRegex_def by (subst matches.simps(4)) (rule refl)
  with mem obtain cs1 s1 where s1: "(cs1, s1) \<in> set (matches (Alt (Str ''href'') (Str ''src'')) s [])"
    and r: "(cs, rest) \<in> set (matches ?R s1 cs1)"
    by (auto simp del: matches.simps)
  from s1 have "length s1 < length s" by (auto split: if_splits simp: prefix_def)
  moreover from r have "length rest \<le> length s1" by (rule matches_length_le)
  ultimately show ?thesis by simp
qed

lemma FindAll_urlRegex_flag:
  "FindAllStringSubmatch_from urlRegex 2 b s = FindAllStringSubmatch_from urlRegex 2 False s"
proof (cases "matchHere urlRegex 2 s")
  case None
  then show ?thesis
    by (subst (1 2) FindAllStringSubmatch_from.simps) simp
next
  case (Some a)
  obtain m rest where a: "a = (m, rest)" by (cases a)
  with Some have "length rest < length s" using matchHere_urlRegex_progress by blast
  with Some a show ?thesis
    by (subst (1 2) FindAllStringSubmatch_from.simps) simp
qed

lemma FindAll_urlRegex_match:
  assumes "matchHere urlRegex 2 s = Some (m, rest)"
  shows "FindAllStringSubmatch urlRegex 2 s = m # FindAllStringSubmatch urlRegex 2 rest"
proof -
  have "length rest < length s" using assms by (rule matchHere_urlRegex_progress)
  with assms show ?thesis
    unfolding FindAllStringSubmatch_def
    by (subst FindAllStringSubmatch_from.simps) (simp add: FindAll_urlRegex_flag[of True])
qed

lemma FindAll_urlRegex_skip:
  assumes "matchHere urlRegex 2 (c # s) = None"
  shows "FindAllStringSubmatch urlRegex 2 (c # s) = FindAllStringSubmatch urlRegex 2 s"
  using assms unfolding FindAllStringSubmatch_def
  by (subst FindAllStringSubmatch_from.simps) simp

lemma FindAll_urlRegex_Nil: "FindAllStringSubmatch urlRegex 2 [] = []"
  unfolding FindAllStringSubmatch_def
  by (subst FindAllStringSubmatch_from.simps) (simp add: matchHere_urlRegex_None)

lemma FindAll_urlRegex_skip_chars:
  assumes "CHR ''h'' \<notin> set pre" "CHR ''s'' \<notin> set pre"
  shows "FindAllStringSubmatch urlRegex 2 (pre @ s) = FindAllStringSubmatch urlRegex 2 s"
  using assms
proof (induction pre)
  case Nil
  then show ?case by simp
next
  case (Cons c pre)
  then have "matchHere urlRegex 2 (c # pre @ s) = None"
    by (intro matchHere_urlRegex_None) auto
  then show ?case using Cons by (simp add: FindAll_urlRegex_skip)
qed


section \<open>Properties of the link extractor\<close>

lemma urlRegex_first_match:
  assumes "attr = ''href'' \<or> attr = ''src''"
    and "q1 = CHR 0x22 \<or> q1 = CHR 0x27" and "q2 = CHR 0x22 \<or> q2 = CHR 0x27"
    and "v \<noteq> []" and "\<forall>c\<in>set v. c \<noteq> CHR 0x22 \<and> c \<noteq> CHR 0x27"
    and "CHR ''h'' \<notin> set pre" and "CHR ''s'' \<notin> set pre"
  shows "FindAllStringSubmatch urlRegex 2 (pre @ attr @ ''='' @ q1 # v @ q2 # rest)
           = [attr @ ''='' @ q1 # v @ [q2], schemeOf v, drop (length (schemeOf v)) v]
             # FindAllStringSubmatch urlRegex 2 rest"
proof -
  have "FindAllStringSubmatch urlRegex 2 (pre @ attr @ ''='' @ q1 # v @ q2 # rest)
      = FindAllStringSubmatch urlRegex 2 (attr @ ''='' @ q1 # v @ q2 # rest)"
    using assms(6,7) by (rule FindAll_urlRegex_skip_chars)
  also have "\<dots> = [attr @ ''='' @ q1 # v @ [q2], schemeOf v, drop (length (schemeOf v)) v]
             # FindAllStringSubmatch urlRegex 2 rest"
    using matchHere_urlRegex_attr[OF assms(1,2,4,5,3)] by (rule FindAll_urlRegex_match)
  finally show ?thesis .
qed

lemma strings_Contains_iff: "strings_Contains s sub \<longleftrightarrow> (\<exists>a b. s = a @ sub @ b)"
proof (induction s)
  case Nil
  then show ?case by auto
next
  case (Cons c cs)
  have "(\<exists>a b. c # cs = a @ sub @ b) \<longleftrightarrow> prefix sub (c # cs) \<or> (\<exists>a b. cs = a @ sub @ b)"
    using sublist_Cons_right[of sub c cs] by (simp add: sublist_def)
  with Cons show ?case by simp
qed

lemma matchHere_length:
  "matchHere r n s = Some (m, rest) \<Longrightarrow> length m = Suc n"
  by (auto simp: matchHere_def split: list.splits)

lemma FindAll_from_length:
  "m \<in> set (FindAllStringSubmatch_from r n b s) \<Longrightarrow> length m = Suc n"
proof (induction r n b s rule: FindAllStringSubmatch_from.induct)
  case (1 r n atPrevEnd s)
  show ?case
  proof (cases "matchHere r n s")
    case None
    show ?thesis
    proof (cases s)
      case Nil
      with None "1.prems" show ?thesis
        by (subst (asm) FindAllStringSubmatch_from.simps) simp
    next
      case (Cons c s')
      with None "1.prems" have "m \<in> set (FindAllStringSubmatch_from r n False s')"
        by (subst (asm) FindAllStringSubmatch_from.simps) simp
      with None Cons show ?thesis by (rule "1.IH"(1))
    qed
  next
    case (Some a)
    obtain m' rest where a: "a = (m', rest)" by (cases a)
    have m': "length m' = Suc n" using Some a matchHere_length by blast
    show ?thesis
    proof (cases "length rest < length s")
      case True
      with Some a "1.prems" have "m = m' \<or> m \<in> set (FindAllStringSubmatch_from r n True rest)"
        by (subst (asm) FindAllStringSubmatch_from.simps) simp
      then show ?thesis
        using m' "1.IH"(2)[OF Some a[symmetric] True] by blast
    next
      case False
      show ?thesis
      proof (cases s)
        case Nil
        with False Some a "1.prems" have "m = m'"
          by (subst (asm) FindAllStringSubmatch_from.simps) (simp split: if_splits)
        with m' show ?thesis by simp
      next
        case (Cons c s')
        with False Some a "1.prems"
        have "m = m' \<or> m \<in> set (FindAllStringSubmatch_from r n False s')"
          by (subst (asm) FindAllStringSubmatch_from.simps) (auto split: if_splits)
        then show ?thesis
          using m' "1.IH"(3)[OF Some a[symmetric] False Cons] by blast
      qed
    qed
  qed
qed

lemma ExtractURLs_loop_filter:
  "\<forall>m\<in>set ms. length m = 3 \<Longrightarrow>
   ExtractURLs_loop ms urls =
     urls @ filter (\<lambda>u. strings_Contains u ''.pdf'') (map absoluteURL ms)"
  by (induction ms arbitrary: urls) (auto simp: absoluteURL_def Let_def)

lemma ExtractURLs_filter:
  "ExtractURLs content =
     filter (\<lambda>u. strings_Contains u ''.pdf'')
            (map absoluteURL (FindAllStringSubmatch urlRegex 2 content))"
proof -
  have len: "\<forall>m\<in>set (FindAllStringSubmatch urlRegex 2 content). length m = 3"
    using FindAll_from_length[of _ urlRegex 2 False content]
    by (simp add: FindAllStringSubmatch_def)
  show ?thesis
    unfolding ExtractURLs_def using ExtractURLs_loop_filter[OF len, of "[]"] by simp
qed

text \<open>
  Claim C1, on the example page of the specification. The claim expects the two URLs
  \<^verbatim>\<open>https://x.com/a.pdf\<close> and \<^verbatim>\<open>https://cdn.x.com/b.PDF?query=1\<close>; the extractor
  returns something else.
\<close>

theorem ExtractURLs_example_counterexample:
  \<open>ExtractURLs ''<a href="https://x.com/a.pdf"><img src="//cdn.x.com/b.PDF?query=1"><a href="/rel/c.pdf"><a href="/about">''
     \<noteq> [''https://x.com/a.pdf'', ''https://cdn.x.com/b.PDF?query=1'']\<close>
  by code_simp

text \<open>
  Claim C1 as amended: on the page made of the four tags the extractor returns exactly
  \<^verbatim>\<open>https://x.com/a.pdf\<close> and the relative reference \<^verbatim>\<open>/rel/c.pdf\<close>, which is passed
  on as it stands. The value \<^verbatim>\<open>//cdn.x.com/b.PDF?query=1\<close> is left out, since the test for
  \<^verbatim>\<open>.pdf\<close> compares bytes and the value has \<^verbatim>\<open>.PDF\<close>; \<^verbatim>\<open>/about\<close> is left out as well.
  Written with \<^verbatim>\<open>.pdf\<close>, the protocol-relative value is kept and resolved to
  \<^verbatim>\<open>https://cdn.x.com/b.pdf?query=1\<close>.
\<close>

theorem ExtractURLs_example:
  \<open>ExtractURLs ''<a href="https://x.com/a.pdf"><img src="//cdn.x.com/b.PDF?query=1"><a href="/rel/c.pdf"><a href="/about">''
     = [''https://x.com/a.pdf'', ''/rel/c.pdf'']
   \<and> ExtractURLs ''<img src="//cdn.x.com/b.pdf?query=1">'' = [''https://cdn.x.com/b.pdf?query=1'']\<close>
  by code_simp

text \<open>
  Claim C4: of the attribute values the pattern matches, the extractor keeps exactly
  those whose absolute form contains \<^verbatim>\<open>.pdf\<close> somewhere, in the order of the matches;
  every URL it returns contains \<^verbatim>\<open>.pdf\<close>; and a URL that has \<^verbatim>\<open>.pdf\<close> in a query
  parameter only is kept, so the test is not a test of the suffix.
\<close>

theorem ExtractURLs_keeps_urls_containing_pdf:
  \<open>ExtractURLs content =
     filter (\<lambda>u. strings_Contains u ''.pdf'')
            (map absoluteURL (FindAllStringSubmatch urlRegex 2 content))
   \<and> (\<forall>u\<in>set (ExtractURLs content). \<exists>a b. u = a @ ''.pdf'' @ b)
   \<and> ExtractURLs ''<a href="https://x.com/view?file=a.pdf&page=2">''
        = [''https://x.com/view?file=a.pdf&page=2'']\<close>
proof -
  have eq: "ExtractURLs content =
     filter (\<lambda>u. strings_Contains u ''.pdf'')
            (map absoluteURL (FindAllStringSubmatch urlRegex 2 content))"
    by (rule ExtractURLs_filter)
  have all: "\<forall>u\<in>set (ExtractURLs content). \<exists>a b. u = a @ ''.pdf'' @ b"
    unfolding eq by (simp add: strings_Contains_iff)
  have ex: \<open>ExtractURLs ''<a href="https://x.com/view?file=a.pdf&page=2">''
        = [''https://x.com/view?file=a.pdf&page=2'']\<close>
    by code_simp
  from eq all ex show ?thesis by blast
qed

theorem ExtractURLs_keeps_urls_containing_pdf_witness:
  \<open>''https://x.com/view?file=a.pdf&page=2''
      \<in> set (ExtractURLs ''<a href="https://x.com/view?file=a.pdf&page=2">'')
   \<and> (\<exists>a b. ''https://x.com/view?file=a.pdf&page=2'' = a @ ''.pdf'' @ b)\<close>
proof -
  let ?doc = \<open>''<a href="https://x.com/view?file=a.pdf&page=2">''\<close>
  note inst = ExtractURLs_keeps_urls_containing_pdf [of "?doc"]
  from inst have e: "ExtractURLs ?doc = [''https://x.com/view?file=a.pdf&page=2'']" by blast
  from inst have a: "\<forall>u\<in>set (ExtractURLs ?doc). \<exists>a b. u = a @ ''.pdf'' @ b" by blast
  have m: "''https://x.com/view?file=a.pdf&page=2'' \<in> set (ExtractURLs ?doc)"
    unfolding e by simp
  with a show ?thesis by blast
qed

text \<open>
  Claim C5 says that the case of the attribute name does not matter. The pattern has no
  case-insensitive flag: \<^verbatim>\<open>HREF=\<close> and \<^verbatim>\<open>Src=\<close> are not matched, where \<^verbatim>\<open>href=\<close> and
  \<^verbatim>\<open>src=\<close> are.
\<close>

theorem urlRegex_upper_case_counterexample:
  \<open>FindAllStringSubmatch urlRegex 2 ''<a HREF="https://x.com/a.pdf"><img Src="https://x.com/b.pdf">'' = []
   \<and> FindAllStringSubmatch urlRegex 2 ''<a href="https://x.com/a.pdf"><img src="https://x.com/b.pdf">''
       = [[''href="https://x.com/a.pdf"'', ''https://'', ''x.com/a.pdf''],
          [''src="https://x.com/b.pdf"'', ''https://'', ''x.com/b.pdf'']]\<close>
  by code_simp

text \<open>
  Claim C5 as amended: the pattern matches \<^verbatim>\<open>href=\<close> or \<^verbatim>\<open>src=\<close>, in lower case only,
  followed by a value between quotes, where the opening and the closing quote are each
  a single or a double quote and the value is not empty and holds no quote. Such an
  assignment, after text without the letters \<^verbatim>\<open>h\<close> and \<^verbatim>\<open>s\<close>, is the first match: its
  groups are the scheme and the rest of the value, and the search goes on behind the
  closing quote. No match starts anywhere but at \<^verbatim>\<open>href=\<close> or \<^verbatim>\<open>src=\<close>.
\<close>

theorem urlRegex_matches_lower_case_attributes:
  assumes "attr = ''href'' \<or> attr = ''src''"
    and "q1 = CHR 0x22 \<or> q1 = CHR 0x27" and "q2 = CHR 0x22 \<or> q2 = CHR 0x27"
    and "v \<noteq> []" and "\<forall>c\<in>set v. c \<noteq> CHR 0x22 \<and> c \<noteq> CHR 0x27"
    and "CHR ''h'' \<notin> set pre" and "CHR ''s'' \<notin> set pre"
  shows "FindAllStringSubmatch urlRegex 2 (pre @ attr @ ''='' @ q1 # v @ q2 # rest)
           = [attr @ ''='' @ q1 # v @ [q2], schemeOf v, drop (length (schemeOf v)) v]
             # FindAllStringSubmatch urlRegex 2 rest
         \<and> (\<forall>s. matchHere urlRegex 2 s \<noteq> None \<longrightarrow> prefix ''href='' s \<or> prefix ''src='' s)"
proof -
  have first: "FindAllStringSubmatch urlRegex 2 (pre @ attr @ ''='' @ q1 # v @ q2 # rest)
           = [attr @ ''='' @ q1 # v @ [q2], schemeOf v, drop (length (schemeOf v)) v]
             # FindAllStringSubmatch urlRegex 2 rest"
    using assms by (rule urlRegex_first_match)
  have second: "\<forall>s. matchHere urlRegex 2 s \<noteq> None \<longrightarrow> prefix ''href='' s \<or> prefix ''src='' s"
  proof (intro allI impI)
    fix s assume m: "matchHere urlRegex 2 s \<noteq> None"
    show "prefix ''href='' s \<or> prefix ''src='' s"
    proof (rule ccontr)
      assume "\<not> (prefix ''href='' s \<or> prefix ''src='' s)"
      then have "matchHere urlRegex 2 s = None"
        by (intro matchHere_urlRegex_None) simp_all
      with m show False by simp
    qed
  qed
  from first second show ?thesis by (rule conjI)
qed

theorem urlRegex_matches_lower_case_attributes_witness:
  \<open>FindAllStringSubmatch urlRegex 2 ''<img src='//x.com/a.pdf">''
     = [[''src='//x.com/a.pdf"'', ''//'', ''x.com/a.pdf'']]\<close>
proof -
  have r: "FindAllStringSubmatch urlRegex 2 ''>'' = []" by code_simp
  have sch: "schemeOf ''//x.com/a.pdf'' = ''//''" by (simp add: schemeOf_def)
  have "FindAllStringSubmatch urlRegex 2
          (''<img '' @ ''src'' @ ''='' @ CHR 0x27 # ''//x.com/a.pdf'' @ CHR 0x22 # ''>'')
        = [''src'' @ ''='' @ CHR 0x27 # ''//x.com/a.pdf'' @ [CHR 0x22], schemeOf ''//x.com/a.pdf'',
           drop (length (schemeOf ''//x.com/a.pdf'')) ''//x.com/a.pdf'']
          # FindAllStringSubmatch urlRegex 2 ''>''"
    using urlRegex_matches_lower_case_attributes
      [of "''src''" "CHR 0x27" "CHR 0x22" "''//x.com/a.pdf''" "''<img ''" "''>''"]
    by simp
  then show ?thesis unfolding r sch by simp
qed


section \<open>Properties of the file system and of the downloader\<close>

lemma lookup_upd_Dir: "lookup (fsys(d \<mapsto> Dir)) d = Some Dir"
  by (simp add: lookup_def)

lemma lookup_upd_other: "p \<noteq> d \<Longrightarrow> lookup (fsys(d \<mapsto> n)) p = lookup fsys p"
  by (simp add: lookup_def)

lemma mkdirs_Dir:
  "mkdirs fsys ds = Inr fsys' \<Longrightarrow>
     (\<forall>d\<in>set ds. lookup fsys' d = Some Dir) \<and>
     (\<forall>p. lookup fsys p = Some Dir \<longrightarrow> lookup fsys' p = Some Dir)"
proof (induction ds arbitrary: fsys)
  case Nil
  then show ?case by simp
next
  case (Cons d ds)
  show ?case
  proof (cases "lookup fsys d")
    case None
    with Cons.prems have m: "mkdirs (fsys(d \<mapsto> Dir)) ds = Inr fsys'" by simp
    from Cons.IH[OF m] have 1: "\<forall>d\<in>set ds. lookup fsys' d = Some Dir"
      and 2: "\<forall>p. lookup (fsys(d \<mapsto> Dir)) p = Some Dir \<longrightarrow> lookup fsys' p = Some Dir"
      by blast+
    from 2 have "lookup fsys' d = Some Dir" using lookup_upd_Dir by blast
    moreover have "lookup fsys' p = Some Dir" if "lookup fsys p = Some Dir" for p
    proof -
      from that None have "p \<noteq> d" by auto
      then have "lookup (fsys(d \<mapsto> Dir)) p = Some Dir" using that by (simp add: lookup_upd_other)
      with 2 show ?thesis by blast
    qed
    ultimately show ?thesis using 1 by simp
  next
    case (Some n)
    show ?thesis
    proof (cases n)
      case (File c)
      with Some Cons.prems show ?thesis by simp
    next
      case Dir
      with Some Cons.prems have m: "mkdirs fsys ds = Inr fsys'" by simp
      from Cons.IH[OF m] Some Dir show ?thesis by simp
    qed
  qed
qed

lemma walk_all_Dir: "\<forall>d\<in>set ds. lookup fsys d = Some Dir \<Longrightarrow> walk fsys ds = None"
  by (induction ds) simp_all

lemma walk_cong: "\<forall>d\<in>set ds. lookup fsys d = lookup fsys' d \<Longrightarrow> walk fsys ds = walk fsys' ds"
  by (induction ds) (simp_all split: option.splits node.splits)

lemma parents_shorter: "d \<in> set (parents q) \<Longrightarrow> d \<noteq> q"
  by (auto simp: parents_def)

lemma os_MkdirAll_makes_Dir:
  assumes "os_MkdirAll fsys folder = Inr fsys'"
  shows "os_Stat fsys' folder = Inr Dir"
proof -
  from assms have ne: "folder \<noteq> []" and m: "mkdirs fsys (parents (path_Clean folder) @ [path_Clean folder]) = Inr fsys'"
    by (auto simp: os_MkdirAll_def Let_def split: if_splits)
  from mkdirs_Dir[OF m] have "\<forall>d\<in>set (parents (path_Clean folder)). lookup fsys' d = Some Dir"
    and "lookup fsys' (path_Clean folder) = Some Dir" by simp_all
  then show ?thesis using ne by (simp add: os_Stat_def Let_def walk_all_Dir)
qed

lemma os_Create_then_write:
  assumes "os_Create fsys name = Inr fsys'"
  shows "ioutil_ReadFile (fsys'(path_Clean name \<mapsto> File b)) name = Inr b"
proof -
  let ?q = "path_Clean name"
  from assms have ne: "name \<noteq> []" and w: "walk fsys (parents ?q) = None"
    and nd: "lookup fsys ?q \<noteq> Some Dir" and f: "fsys' = fsys(?q \<mapsto> File [])"
    by (auto simp: os_Create_def Let_def split: if_splits option.splits node.splits)
  from nd have q: "?q \<noteq> ''.''" "?q \<noteq> ''/''" by (auto simp: lookup_def)
  have "walk (fsys'(?q \<mapsto> File b)) (parents ?q) = walk fsys (parents ?q)"
    by (rule walk_cong) (auto simp: f lookup_upd_other dest: parents_shorter)
  with w have "walk (fsys'(?q \<mapsto> File b)) (parents ?q) = None" by simp
  moreover have "lookup (fsys'(?q \<mapsto> File b)) ?q = Some (File b)" using q by (simp add: lookup_def)
  ultimately show ?thesis using ne by (simp add: ioutil_ReadFile_def os_Stat_def Let_def)
qed

lemma walk_None_Dir: "walk fsys ds = None \<Longrightarrow> d \<in> set ds \<Longrightarrow> lookup fsys d = Some Dir"
  by (induction ds) (auto split: option.splits node.splits)

lemma os_Stat_Dir_preserved:
  assumes "os_Stat fsys folder = Inr Dir" and "lookup fsys q \<noteq> Some Dir"
  shows "os_Stat (fsys(q \<mapsto> n)) folder = Inr Dir"
proof -
  let ?qf = "path_Clean folder"
  from assms(1) have ne: "folder \<noteq> []" and w: "walk fsys (parents ?qf) = None"
    and l: "lookup fsys ?qf = Some Dir"
    by (auto simp: os_Stat_def Let_def split: if_splits option.splits)
  have same: "lookup (fsys(q \<mapsto> n)) d = lookup fsys d" if "lookup fsys d = Some Dir" for d
  proof -
    from that assms(2) have "d \<noteq> q" by auto
    then show ?thesis by (simp add: lookup_upd_other)
  qed
  have "walk (fsys(q \<mapsto> n)) (parents ?qf) = walk fsys (parents ?qf)"
    by (rule walk_cong) (use w same walk_None_Dir in blast)
  moreover have "lookup (fsys(q \<mapsto> n)) ?qf = Some Dir" using same[OF l] l by simp
  ultimately show ?thesis using ne w by (simp add: os_Stat_def Let_def)
qed

lemma os_Create_Inr:
  assumes "os_Create fsys name = Inr fsys'"
  shows "fsys' = fsys(path_Clean name \<mapsto> File [])" and "lookup fsys (path_Clean name) \<noteq> Some Dir"
  using assms by (auto simp: os_Create_def Let_def split: if_splits option.splits node.splits)

lemma downloadPDF_skip:
  assumes "fileExists (fs w) (path_Join [folder, getFileNamesFromURLs pdfURL])"
  shows "downloadPDF net pdfURL folder w =
     (None, w\<lparr>trace := trace w @ [Log (AlreadyExists (path_Join [folder, getFileNamesFromURLs pdfURL]))]\<rparr>)"
  using assms by (simp add: downloadPDF_def Let_def emit_def)

lemma downloadPDF_failed_get:
  assumes "\<not> fileExists (fs w) (path_Join [folder, getFileNamesFromURLs pdfURL])"
    and "net pdfURL = TransportError \<or> (\<exists>status b. net pdfURL = Response status b \<and> status \<noteq> 200)"
  shows "downloadPDF net pdfURL folder w =
     ((case net pdfURL of TransportError \<Rightarrow> Some ErrDownloadingPDF
       | Response status b \<Rightarrow> Some (ErrStatusCode status)),
      w\<lparr>trace := trace w @ [HttpGet pdfURL]\<rparr>)"
  using assms by (auto simp: downloadPDF_def Let_def emit_def)

text \<open>The call after a response with status 200, step by step.\<close>

lemma downloadPDF_200:
  assumes nf: "\<not> fileExists (fs w) (path_Join [folder, getFileNamesFromURLs pdfURL])"
    and net: "net pdfURL = Response 200 b"
  defines "fullPath \<equiv> path_Join [folder, getFileNamesFromURLs pdfURL]"
  defines "missing \<equiv> os_IsNotExist (os_Stat (fs w) folder)"
  defines "mk \<equiv> (if missing then [MkdirAll folder] else [])"
  shows "downloadPDF net pdfURL folder w =
    (if missing \<and> isl (os_MkdirAll (fs w) folder)
     then (Some (ErrCreatingFolder (projl (os_MkdirAll (fs w) folder))),
           w\<lparr>trace := trace w @ HttpGet pdfURL # mk\<rparr>)
     else let fs2 = (if missing then projr (os_MkdirAll (fs w) folder) else fs w) in
       if isl (os_Create fs2 fullPath)
       then (Some (ErrCreatingFile (projl (os_Create fs2 fullPath))),
             \<lparr>fs = fs2, trace = trace w @ HttpGet pdfURL # mk @ [Create fullPath]\<rparr>)
       else ((if breaks b then Some ErrSavingPDF else None),
             \<lparr>fs = (projr (os_Create fs2 fullPath))(path_Clean fullPath \<mapsto> File (delivered b)),
              trace = trace w @ HttpGet pdfURL # mk @ [Create fullPath, Copy fullPath (delivered b)]\<rparr>))"
  using nf net unfolding fullPath_def missing_def mk_def
  by (cases "os_MkdirAll (fs w) folder";
      cases "os_Create (fs w) (path_Join [folder, getFileNamesFromURLs pdfURL])";
      cases "os_Create (projr (os_MkdirAll (fs w) folder)) (path_Join [folder, getFileNamesFromURLs pdfURL])")
     (auto simp: downloadPDF_def Let_def emit_def io_Copy_def)

text \<open>
  Claim C3: when a file that is not a directory is at the path of the local file,
  \<^const>\<open>downloadPDF\<close> returns \<^verbatim>\<open>nil\<close>, leaves the file system as it is, and all it does
  is log the line \<^verbatim>\<open>File ... already exists, skipping download.\<close>: it sends no request.
  The outcome can be told from a download: a call that finds no such file begins
  with the request and never logs that line. (The value returned is \<^verbatim>\<open>nil\<close> after a
  download too; the log line and the request are what differs.)
\<close>

theorem downloadPDF_skips_existing_file:
  "(fileExists (fs w) (fullPathOf folder pdfURL) \<longrightarrow>
      fst (downloadPDF net pdfURL folder w) = None \<and>
      fs (snd (downloadPDF net pdfURL folder w)) = fs w \<and>
      trace (snd (downloadPDF net pdfURL folder w))
        = trace w @ [Log (AlreadyExists (fullPathOf folder pdfURL))])
   \<and> (\<not> fileExists (fs w) (fullPathOf folder pdfURL) \<longrightarrow>
        (\<exists>tr. trace (snd (downloadPDF net pdfURL folder w)) = trace w @ HttpGet pdfURL # tr \<and>
              (\<forall>e\<in>set tr. \<forall>p. e \<noteq> Log (AlreadyExists p))))"
proof (intro conjI impI)
  assume e: "fileExists (fs w) (fullPathOf folder pdfURL)"
  show "fst (downloadPDF net pdfURL folder w) = None"
    and "fs (snd (downloadPDF net pdfURL folder w)) = fs w"
    and "trace (snd (downloadPDF net pdfURL folder w))
        = trace w @ [Log (AlreadyExists (fullPathOf folder pdfURL))]"
    unfolding downloadPDF_skip[OF e] by simp_all
next
  assume ne: "\<not> fileExists (fs w) (fullPathOf folder pdfURL)"
  show "\<exists>tr. trace (snd (downloadPDF net pdfURL folder w)) = trace w @ HttpGet pdfURL # tr \<and>
              (\<forall>e\<in>set tr. \<forall>p. e \<noteq> Log (AlreadyExists p))"
  proof (cases "\<exists>b. net pdfURL = Response 200 b")
    case True
    then obtain b where b: "net pdfURL = Response 200 b" by blast
    show ?thesis unfolding downloadPDF_200[where net=net and pdfURL=pdfURL, OF ne b] by (simp add: Let_def)
  next
    case False
    then have "net pdfURL = TransportError \<or> (\<exists>status b. net pdfURL = Response status b \<and> status \<noteq> 200)"
      by (cases "net pdfURL") auto
    from downloadPDF_failed_get[where net=net and pdfURL=pdfURL, OF ne this] show ?thesis by simp
  qed
qed

theorem downloadPDF_skips_existing_file_witness:
  "fileExists (fs cached_world) (fullPathOf ''PDFs'' ''https://x.com/a.pdf'') \<and>
   fst (downloadPDF example_net ''https://x.com/a.pdf'' ''PDFs'' cached_world) = None \<and>
   fs (snd (downloadPDF example_net ''https://x.com/a.pdf'' ''PDFs'' cached_world)) = fs cached_world \<and>
   trace (snd (downloadPDF example_net ''https://x.com/a.pdf'' ''PDFs'' cached_world))
     = [Log (AlreadyExists ''PDFs/a.pdf'')] \<and>
   \<not> fileExists (fs example_world) (fullPathOf ''PDFs'' ''https://x.com/a.pdf'') \<and>
   (\<exists>tr. trace (snd (downloadPDF example_net ''https://x.com/a.pdf'' ''PDFs'' example_world))
           = HttpGet ''https://x.com/a.pdf'' # tr \<and>
         (\<forall>e\<in>set tr. \<forall>p. e \<noteq> Log (AlreadyExists p)))"
proof -
  have h1: "fileExists (fs cached_world) (fullPathOf ''PDFs'' ''https://x.com/a.pdf'')"
    by code_simp
  have h2: "\<not> fileExists (fs example_world) (fullPathOf ''PDFs'' ''https://x.com/a.pdf'')"
    by code_simp
  have p: "fullPathOf ''PDFs'' ''https://x.com/a.pdf'' = ''PDFs/a.pdf''" by code_simp
  have t: "trace cached_world = []" "trace example_world = []"
    by (simp_all add: cached_world_def example_world_def)
  note c = downloadPDF_skips_existing_file
             [of cached_world "''PDFs''" "''https://x.com/a.pdf''" example_net]
  note e = downloadPDF_skips_existing_file
             [of example_world "''PDFs''" "''https://x.com/a.pdf''" example_net]
  note c1 = c[THEN conjunct1, THEN mp, OF h1, unfolded p t append_Nil]
  note e1 = e[THEN conjunct2, THEN mp, OF h2, unfolded t append_Nil]
  from h1 c1 h2 e1 show ?thesis by (intro conjI) (elim conjE, assumption)+
qed

text \<open>
  Claim C10: when no file is at the path of the local file and the request fails in
  transport or is answered with a status other than 200, \<^const>\<open>downloadPDF\<close> returns
  an error and the file system is as before; the request is all that happened, so no
  folder and no file has been created.
\<close>

theorem downloadPDF_failed_request_changes_nothing:
  assumes "\<not> fileExists (fs w) (fullPathOf folder pdfURL)"
    and "net pdfURL = TransportError \<or> (\<exists>status b. net pdfURL = Response status b \<and> status \<noteq> 200)"
  shows "(\<exists>err. fst (downloadPDF net pdfURL folder w) = Some err) \<and>
         fs (snd (downloadPDF net pdfURL folder w)) = fs w \<and>
         trace (snd (downloadPDF net pdfURL folder w)) = trace w @ [HttpGet pdfURL]"
  unfolding downloadPDF_failed_get[where net=net and pdfURL=pdfURL, OF assms] using assms(2) by auto

theorem downloadPDF_failed_request_changes_nothing_witness:
  "\<not> fileExists (fs example_world) (fullPathOf ''PDFs'' ''https://x.com/b.pdf'') \<and>
   example_net ''https://x.com/b.pdf'' = Response 404 (Complete ''Not Found'') \<and>
   (\<exists>err. fst (downloadPDF example_net ''https://x.com/b.pdf'' ''PDFs'' example_world) = Some err) \<and>
   fs (snd (downloadPDF example_net ''https://x.com/b.pdf'' ''PDFs'' example_world)) = fs example_world \<and>
   trace (snd (downloadPDF example_net ''https://x.com/b.pdf'' ''PDFs'' example_world))
     = [HttpGet ''https://x.com/b.pdf'']"
proof -
  have h1: "\<not> fileExists (fs example_world) (fullPathOf ''PDFs'' ''https://x.com/b.pdf'')"
    by code_simp
  have h2: "example_net ''https://x.com/b.pdf'' = Response 404 (Complete ''Not Found'')"
    by code_simp
  have h3: "example_net ''https://x.com/b.pdf'' = TransportError \<or>
     (\<exists>status b. example_net ''https://x.com/b.pdf'' = Response status b \<and> status \<noteq> 200)"
    unfolding h2 by simp
  have t: "trace example_world = []" by (simp add: example_world_def)
  note r = downloadPDF_failed_request_changes_nothing
             [of example_world "''PDFs''" "''https://x.com/b.pdf''" example_net, OF h1 h3]
  show ?thesis using h1 h2 r[unfolded t] by (simp only: append_Nil simp_thms)
qed

text \<open>
  Claim C6 says that the folder is made sure of before the request. In the program the
  request comes first: with the answer 404 the request has been sent and the folder
  \<^verbatim>\<open>PDFs\<close> is missing before and after; with the answer 200 the request precedes
  \<^verbatim>\<open>MkdirAll\<close>.
\<close>

theorem downloadPDF_folder_counterexample:
  "trace (snd (downloadPDF example_net ''https://x.com/b.pdf'' ''PDFs'' example_world))
     = [HttpGet ''https://x.com/b.pdf''] \<and>
   os_Stat (fs (snd (downloadPDF example_net ''https://x.com/b.pdf'' ''PDFs'' example_world))) ''PDFs''
     = Inl ENOENT \<and>
   trace (snd (downloadPDF example_net ''https://x.com/a.pdf'' ''PDFs'' example_world))
     = [HttpGet ''https://x.com/a.pdf'', MkdirAll ''PDFs'', Create ''PDFs/a.pdf'',
        Copy ''PDFs/a.pdf'' ''%PDF-a'']"
  by code_simp

text \<open>
  Claim C6 as amended: when no file is at the path of the local file,
  \<^const>\<open>downloadPDF\<close> sends the request first. Only after an answer with status 200
  does it make sure of the folder: a folder that \<^verbatim>\<open>os.Stat\<close> reports as missing is
  created with \<^verbatim>\<open>os.MkdirAll\<close>, with the directories above it, and a folder that is there
  is not created again and gives no error. The file is created and written only after
  that, so whenever the file is created the folder has been made, and after a
  successful call the folder is a directory.
\<close>

theorem downloadPDF_folder_after_request:
  assumes "\<not> fileExists (fs w) (fullPathOf folder pdfURL)" and "net pdfURL = Response 200 b"
  shows "\<exists>r w' mk tr.
      downloadPDF net pdfURL folder w = (r, w') \<and>
      trace w' = trace w @ [HttpGet pdfURL] @ mk @ tr \<and>
      mk = (if os_IsNotExist (os_Stat (fs w) folder) then [MkdirAll folder] else []) \<and>
      (tr = [] \<or> tr = [Create (fullPathOf folder pdfURL)] \<or>
       tr = [Create (fullPathOf folder pdfURL), Copy (fullPathOf folder pdfURL) (delivered b)]) \<and>
      (os_IsNotExist (os_Stat (fs w) folder) \<and> tr \<noteq> [] \<longrightarrow>
         (\<exists>fs2. os_MkdirAll (fs w) folder = Inr fs2 \<and> os_Stat fs2 folder = Inr Dir)) \<and>
      (os_IsNotExist (os_Stat (fs w) folder) \<and> r = None \<longrightarrow> os_Stat (fs w') folder = Inr Dir) \<and>
      (\<not> os_IsNotExist (os_Stat (fs w) folder) \<longrightarrow> (\<forall>e. r \<noteq> Some (ErrCreatingFolder e)))"
proof (cases "os_IsNotExist (os_Stat (fs w) folder)")
  case False
  then show ?thesis unfolding downloadPDF_200[where net=net and pdfURL=pdfURL, OF assms] by (simp add: Let_def)
next
  case True
  show ?thesis
  proof (cases "os_MkdirAll (fs w) folder")
    case (Inl e)
    with True show ?thesis unfolding downloadPDF_200[where net=net and pdfURL=pdfURL, OF assms] by (simp add: Let_def)
  next
    case (Inr fs2)
    have d: "os_Stat fs2 folder = Inr Dir" using Inr by (rule os_MkdirAll_makes_Dir)
    show ?thesis
    proof (cases "os_Create fs2 (fullPathOf folder pdfURL)")
      case Inl
      with True Inr d show ?thesis unfolding downloadPDF_200[where net=net and pdfURL=pdfURL, OF assms] by (simp add: Let_def)
    next
      case (Inr fs3)
      note c = os_Create_Inr[OF Inr]
      have "os_Stat (fs3(path_Clean (fullPathOf folder pdfURL) \<mapsto> File (delivered b))) folder = Inr Dir"
        unfolding c(1) using os_Stat_Dir_preserved[OF d c(2)] by simp
      with True \<open>os_MkdirAll (fs w) folder = Inr fs2\<close> Inr d show ?thesis
        unfolding downloadPDF_200[where net=net and pdfURL=pdfURL, OF assms] by (simp add: Let_def)
    qed
  qed
qed

theorem downloadPDF_folder_after_request_witness:
  "\<not> fileExists (fs example_world) (fullPathOf ''PDFs'' ''https://x.com/a.pdf'') \<and>
   example_net ''https://x.com/a.pdf'' = Response 200 (Complete ''%PDF-a'') \<and>
   (\<exists>r w' mk tr.
      downloadPDF example_net ''https://x.com/a.pdf'' ''PDFs'' example_world = (r, w') \<and>
      trace w' = trace example_world @ [HttpGet ''https://x.com/a.pdf''] @ mk @ tr \<and>
      mk = (if os_IsNotExist (os_Stat (fs example_world) ''PDFs'') then [MkdirAll ''PDFs''] else []) \<and>
      (tr = [] \<or> tr = [Create (fullPathOf ''PDFs'' ''https://x.com/a.pdf'')] \<or>
       tr = [Create (fullPathOf ''PDFs'' ''https://x.com/a.pdf''),
             Copy (fullPathOf ''PDFs'' ''https://x.com/a.pdf'') (delivered (Complete ''%PDF-a''))]) \<and>
      (os_IsNotExist (os_Stat (fs example_world) ''PDFs'') \<and> tr \<noteq> [] \<longrightarrow>
         (\<exists>fs2. os_MkdirAll (fs example_world) ''PDFs'' = Inr fs2 \<and> os_Stat fs2 ''PDFs'' = Inr Dir)) \<and>
      (os_IsNotExist (os_Stat (fs example_world) ''PDFs'') \<and> r = None \<longrightarrow>
         os_Stat (fs w') ''PDFs'' = Inr Dir) \<and>
      (\<not> os_IsNotExist (os_Stat (fs example_world) ''PDFs'') \<longrightarrow>
         (\<forall>e. r \<noteq> Some (ErrCreatingFolder e))))"
proof -
  have h1: "\<not> fileExists (fs example_world) (fullPathOf ''PDFs'' ''https://x.com/a.pdf'')"
    by code_simp
  have h2: "example_net ''https://x.com/a.pdf'' = Response 200 (Complete ''%PDF-a'')"
    by code_simp
  show ?thesis
    by (intro conjI, rule h1, rule h2)
       (rule downloadPDF_folder_after_request
               [of example_world "''PDFs''" "''https://x.com/a.pdf''" example_net, OF h1 h2])
qed

text \<open>
  Claim C8 says that a partial write is never reported as a successful download. The
  body of \<^verbatim>\<open>d.pdf\<close> breaks after three bytes: the first call returns the error of the
  copy and leaves the three bytes in \<^verbatim>\<open>PDFs/d.pdf\<close>; the second call finds that file
  and returns \<^verbatim>\<open>nil\<close>, although the body has never been written whole.
\<close>

theorem downloadPDF_partial_file_counterexample:
  "example_net ''https://x.com/d.pdf'' = Response 200 (Broken ''%PD'') \<and>
   fst (downloadPDF example_net ''https://x.com/d.pdf'' ''PDFs'' example_world)
     = Some ErrSavingPDF \<and>
   fst (downloadPDF example_net ''https://x.com/d.pdf'' ''PDFs''
          (snd (downloadPDF example_net ''https://x.com/d.pdf'' ''PDFs'' example_world)))
     = None \<and>
   ioutil_ReadFile
     (fs (snd (downloadPDF example_net ''https://x.com/d.pdf'' ''PDFs''
                (snd (downloadPDF example_net ''https://x.com/d.pdf'' ''PDFs'' example_world)))))
     ''PDFs/d.pdf'' = Inr ''%PD''"
  by code_simp

text \<open>
  Claim C8 as amended: when no file is at the path of the local file and
  \<^const>\<open>downloadPDF\<close> returns \<^verbatim>\<open>nil\<close>, the answer had status 200, its body was delivered
  whole, and the local file holds exactly that body. A body that breaks while it is
  copied makes the call return an error; when that error is the one of the copy, the
  part of the body that was delivered stays in the local file.
\<close>

theorem downloadPDF_success_means_whole_body:
  assumes "\<not> fileExists (fs w) (fullPathOf folder pdfURL)"
  shows "(downloadPDF net pdfURL folder w = (None, w') \<longrightarrow>
           (\<exists>b. net pdfURL = Response 200 (Complete b) \<and>
                ioutil_ReadFile (fs w') (fullPathOf folder pdfURL) = Inr b))
       \<and> (net pdfURL = Response 200 (Broken b) \<longrightarrow>
           (\<exists>err. fst (downloadPDF net pdfURL folder w) = Some err) \<and>
           (fst (downloadPDF net pdfURL folder w) = Some ErrSavingPDF \<longrightarrow>
              ioutil_ReadFile (fs (snd (downloadPDF net pdfURL folder w))) (fullPathOf folder pdfURL)
                = Inr b))"
proof (intro conjI impI)
  assume ok: "downloadPDF net pdfURL folder w = (None, w')"
  have "\<exists>b. net pdfURL = Response 200 b"
  proof (rule ccontr)
    assume "\<not> (\<exists>b. net pdfURL = Response 200 b)"
    then have "net pdfURL = TransportError \<or> (\<exists>status b. net pdfURL = Response status b \<and> status \<noteq> 200)"
      by (cases "net pdfURL") auto
    from downloadPDF_failed_get[where net=net and pdfURL=pdfURL, OF assms this] ok show False
      by (auto split: http_result.splits)
  qed
  then obtain body where body: "net pdfURL = Response 200 body" by blast
  let ?fs2 = "if os_IsNotExist (os_Stat (fs w) folder) then projr (os_MkdirAll (fs w) folder) else fs w"
  from ok have nb: "\<not> breaks body" and c: "\<not> isl (os_Create ?fs2 (fullPathOf folder pdfURL))"
    and w': "fs w' = (projr (os_Create ?fs2 (fullPathOf folder pdfURL)))
                        (path_Clean (fullPathOf folder pdfURL) \<mapsto> File (delivered body))"
    unfolding downloadPDF_200[where net=net and pdfURL=pdfURL, OF assms body] by (auto simp: Let_def split: if_splits)
  from c obtain fs3 where fs3: "os_Create ?fs2 (fullPathOf folder pdfURL) = Inr fs3"
    by (cases "os_Create ?fs2 (fullPathOf folder pdfURL)") auto
  from nb obtain b where b: "body = Complete b" by (cases body) auto
  have "ioutil_ReadFile (fs w') (fullPathOf folder pdfURL) = Inr b"
    unfolding w' fs3 using os_Create_then_write[OF fs3, of b] b by simp
  with body b show "\<exists>b. net pdfURL = Response 200 (Complete b) \<and>
                ioutil_ReadFile (fs w') (fullPathOf folder pdfURL) = Inr b" by blast
next
  assume br: "net pdfURL = Response 200 (Broken b)"
  show "\<exists>err. fst (downloadPDF net pdfURL folder w) = Some err"
    unfolding downloadPDF_200[where net=net and pdfURL=pdfURL, OF assms br] by (simp add: Let_def)
next
  assume br: "net pdfURL = Response 200 (Broken b)"
    and sv: "fst (downloadPDF net pdfURL folder w) = Some ErrSavingPDF"
  let ?fs2 = "if os_IsNotExist (os_Stat (fs w) folder) then projr (os_MkdirAll (fs w) folder) else fs w"
  from sv have c: "\<not> isl (os_Create ?fs2 (fullPathOf folder pdfURL))"
    and w': "fs (snd (downloadPDF net pdfURL folder w)) = (projr (os_Create ?fs2 (fullPathOf folder pdfURL)))
                        (path_Clean (fullPathOf folder pdfURL) \<mapsto> File b)"
    unfolding downloadPDF_200[where net=net and pdfURL=pdfURL, OF assms br] by (auto simp: Let_def split: if_splits)
  from c obtain fs3 where fs3: "os_Create ?fs2 (fullPathOf folder pdfURL) = Inr fs3"
    by (cases "os_Create ?fs2 (fullPathOf folder pdfURL)") auto
  show "ioutil_ReadFile (fs (snd (downloadPDF net pdfURL folder w))) (fullPathOf folder pdfURL) = Inr b"
    unfolding w' fs3 using os_Create_then_write[OF fs3, of b] by simp
qed

theorem downloadPDF_success_means_whole_body_witness:
  "\<not> fileExists (fs example_world) (fullPathOf ''PDFs'' ''https://x.com/a.pdf'') \<and>
   fst (downloadPDF example_net ''https://x.com/a.pdf'' ''PDFs'' example_world) = None \<and>
   (\<exists>b. example_net ''https://x.com/a.pdf'' = Response 200 (Complete b) \<and>
        ioutil_ReadFile (fs (snd (downloadPDF example_net ''https://x.com/a.pdf'' ''PDFs'' example_world)))
          (fullPathOf ''PDFs'' ''https://x.com/a.pdf'') = Inr b) \<and>
   \<not> fileExists (fs example_world) (fullPathOf ''PDFs'' ''https://x.com/d.pdf'') \<and>
   example_net ''https://x.com/d.pdf'' = Response 200 (Broken ''%PD'') \<and>
   fst (downloadPDF example_net ''https://x.com/d.pdf'' ''PDFs'' example_world) = Some ErrSavingPDF \<and>
   ioutil_ReadFile (fs (snd (downloadPDF example_net ''https://x.com/d.pdf'' ''PDFs'' example_world)))
          (fullPathOf ''PDFs'' ''https://x.com/d.pdf'') = Inr ''%PD''"
proof -
  let ?a = "downloadPDF example_net ''https://x.com/a.pdf'' ''PDFs'' example_world"
  let ?d = "downloadPDF example_net ''https://x.com/d.pdf'' ''PDFs'' example_world"
  have h1: "\<not> fileExists (fs example_world) (fullPathOf ''PDFs'' ''https://x.com/a.pdf'')"
    by code_simp
  have h2: "fst ?a = None" by code_simp
  then have h3: "?a = (None, snd ?a)" by (metis prod.collapse)
  have h4: "\<not> fileExists (fs example_world) (fullPathOf ''PDFs'' ''https://x.com/d.pdf'')"
    by code_simp
  have h5: "example_net ''https://x.com/d.pdf'' = Response 200 (Broken ''%PD'')"
    by code_simp
  have h6: "fst ?d = Some ErrSavingPDF" by code_simp
  note a = downloadPDF_success_means_whole_body
             [of example_world "''PDFs''" "''https://x.com/a.pdf''" example_net "snd ?a" "[]", OF h1]
  note d = downloadPDF_success_means_whole_body
             [of example_world "''PDFs''" "''https://x.com/d.pdf''" example_net "snd ?d" "''%PD''", OF h4]
  note a' = a[THEN conjunct1, THEN mp, OF h3]
  note d' = d[THEN conjunct2, THEN mp, OF h5, THEN conjunct2, THEN mp, OF h6]
  from h1 h2 a' h4 h5 h6 d' show ?thesis by (intro conjI)
qed


section \<open>Properties of the loop over the links\<close>

lemma outcomes_append: "outcomes (a @ b) = outcomes a @ outcomes b"
  by (simp add: outcomes_def map_filter_def)

lemma downloadPDF_outcomes:
  "outcomes (trace (snd (downloadPDF net pdfURL folder w))) = outcomes (trace w)"
proof (cases "fileExists (fs w) (fullPathOf folder pdfURL)")
  case True
  show ?thesis unfolding downloadPDF_skip[OF True]
    by (simp add: outcomes_append) (simp add: outcomes_def map_filter_def)
next
  case False
  show ?thesis
  proof (cases "\<exists>b. net pdfURL = Response 200 b")
    case True
    then obtain b where b: "net pdfURL = Response 200 b" by blast
    show ?thesis unfolding downloadPDF_200[where net=net and pdfURL=pdfURL, OF False b]
      by (simp add: Let_def outcomes_append) (simp add: outcomes_def map_filter_def)
  next
    case nb: False
    then have "net pdfURL = TransportError \<or> (\<exists>status b. net pdfURL = Response status b \<and> status \<noteq> 200)"
      by (cases "net pdfURL") auto
    from downloadPDF_failed_get[where net=net and pdfURL=pdfURL, OF False this] show ?thesis
      by (simp add: outcomes_append) (simp add: outcomes_def map_filter_def)
  qed
qed

lemma main_loop_outcomes:
  "map fst (outcomes (trace (main_loop net links folder w))) = map fst (outcomes (trace w)) @ links"
proof (induction links arbitrary: w)
  case Nil
  then show ?case by simp
next
  case (Cons link links)
  obtain r w1 where d: "downloadPDF net link folder w = (r, w1)" by (cases "downloadPDF net link folder w")
  have o: "outcomes (trace w1) = outcomes (trace w)"
    using downloadPDF_outcomes[of net link folder w] d by simp
  show ?case
  proof (cases r)
    case None
    with d o Cons.IH[of "emit (Log (DownloadedSuccessfully link)) w1"] show ?thesis
      by (simp add: emit_def outcomes_append) (simp add: outcomes_def map_filter_def)
  next
    case (Some err)
    with d o Cons.IH[of "emit (Log (FailedToDownload link err)) w1"] show ?thesis
      by (simp add: emit_def outcomes_append) (simp add: outcomes_def map_filter_def)
  qed
qed

lemma main_loop_append:
  "main_loop net (xs @ ys) folder w = main_loop net ys folder (main_loop net xs folder w)"
  by (induction xs arbitrary: w) (auto split: prod.splits option.splits)

text \<open>
  Claim C7: the loop of \<^verbatim>\<open>main\<close> logs one outcome for each link of the batch, in the
  order of the batch, whatever the downloads before it did. Each link is downloaded in
  its turn, in the world that the links before it left behind; its failure or success
  is logged for that link, and the loop goes on with the links after it. In
  particular, with three links of which the second is answered with 404, the first
  and the third are downloaded and stored, and the second is reported as failed.
\<close>

theorem main_loop_goes_on_after_a_failure:
  "map fst (outcomes (trace (main_loop net links folder w))) = map fst (outcomes (trace w)) @ links
   \<and> (\<forall>pre link post. links = pre @ link # post \<longrightarrow>
        (\<exists>r w1. downloadPDF net link folder (main_loop net pre folder w) = (r, w1) \<and>
           main_loop net links folder w =
             main_loop net post folder
               (emit (Log (case r of None \<Rightarrow> DownloadedSuccessfully link
                           | Some err \<Rightarrow> FailedToDownload link err)) w1)))
   \<and> outcomes (trace (main_loop example_net
          [''https://x.com/a.pdf'', ''https://x.com/b.pdf'', ''https://x.com/c.pdf''] ''PDFs''
          example_world))
       = [(''https://x.com/a.pdf'', None), (''https://x.com/b.pdf'', Some (ErrStatusCode 404)),
          (''https://x.com/c.pdf'', None)]
   \<and> map (ioutil_ReadFile (fs (main_loop example_net
          [''https://x.com/a.pdf'', ''https://x.com/b.pdf'', ''https://x.com/c.pdf''] ''PDFs''
          example_world))) [''PDFs/a.pdf'', ''PDFs/b.pdf'', ''PDFs/c.pdf'']
       = [Inr ''%PDF-a'', Inl ENOENT, Inr ''%PDF-c'']"
proof (intro conjI allI impI)
  show "map fst (outcomes (trace (main_loop net links folder w))) = map fst (outcomes (trace w)) @ links"
    by (rule main_loop_outcomes)
next
  fix pre link post assume l: "links = pre @ link # post"
  obtain r w1 where d: "downloadPDF net link folder (main_loop net pre folder w) = (r, w1)"
    by (cases "downloadPDF net link folder (main_loop net pre folder w)")
  have "main_loop net links folder w
      = main_loop net post folder (main_loop net [link] folder (main_loop net pre folder w))"
    unfolding l using main_loop_append[of net pre "[link] @ post" folder w]
      main_loop_append[of net "[link]" post folder] by simp
  also have "main_loop net [link] folder (main_loop net pre folder w)
      = emit (Log (case r of None \<Rightarrow> DownloadedSuccessfully link
                           | Some err \<Rightarrow> FailedToDownload link err)) w1"
    using d by (cases r) simp_all
  finally show "\<exists>r w1. downloadPDF net link folder (main_loop net pre folder w) = (r, w1) \<and>
           main_loop net links folder w =
             main_loop net post folder
               (emit (Log (case r of None \<Rightarrow> DownloadedSuccessfully link
                           | Some err \<Rightarrow> FailedToDownload link err)) w1)"
    using d by blast
next
  show "outcomes (trace (main_loop example_net
          [''https://x.com/a.pdf'', ''https://x.com/b.pdf'', ''https://x.com/c.pdf''] ''PDFs''
          example_world))
       = [(''https://x.com/a.pdf'', None), (''https://x.com/b.pdf'', Some (ErrStatusCode 404)),
          (''https://x.com/c.pdf'', None)]"
    by code_simp
next
  show "map (ioutil_ReadFile (fs (main_loop example_net
          [''https://x.com/a.pdf'', ''https://x.com/b.pdf'', ''https://x.com/c.pdf''] ''PDFs''
          example_world))) [''PDFs/a.pdf'', ''PDFs/b.pdf'', ''PDFs/c.pdf'']
       = [Inr ''%PDF-a'', Inl ENOENT, Inr ''%PDF-c'']"
    by code_simp
qed

theorem main_loop_goes_on_after_a_failure_witness:
  "[''https://x.com/a.pdf'', ''https://x.com/b.pdf'', ''https://x.com/c.pdf'']
     = [''https://x.com/a.pdf''] @ ''https://x.com/b.pdf'' # [''https://x.com/c.pdf''] \<and>
   (\<exists>r w1. downloadPDF example_net ''https://x.com/b.pdf'' ''PDFs''
              (main_loop example_net [''https://x.com/a.pdf''] ''PDFs'' example_world) = (r, w1) \<and>
      main_loop example_net
          [''https://x.com/a.pdf'', ''https://x.com/b.pdf'', ''https://x.com/c.pdf''] ''PDFs''
          example_world =
        main_loop example_net [''https://x.com/c.pdf''] ''PDFs''
          (emit (Log (case r of None \<Rightarrow> DownloadedSuccessfully ''https://x.com/b.pdf''
                      | Some err \<Rightarrow> FailedToDownload ''https://x.com/b.pdf'' err)) w1))"
proof -
  have s: "[''https://x.com/a.pdf'', ''https://x.com/b.pdf'', ''https://x.com/c.pdf'']
     = [''https://x.com/a.pdf''] @ ''https://x.com/b.pdf'' # [''https://x.com/c.pdf'']"
    by simp
  note t = main_loop_goes_on_after_a_failure
      [of example_net "[''https://x.com/a.pdf'', ''https://x.com/b.pdf'', ''https://x.com/c.pdf'']"
          "''PDFs''" example_world,
       THEN conjunct2, THEN conjunct1, rule_format, OF s]
  from s t show ?thesis by (rule conjI)
qed


section \<open>The two link extractors compared\<close>

lemma strings_Contains_prepend:
  "strings_Contains v sub \<Longrightarrow> strings_Contains (p @ v) sub"
proof -
  assume "strings_Contains v sub"
  then obtain a b where "v = a @ sub @ b" unfolding strings_Contains_iff by blast
  then have "p @ v = (p @ a) @ sub @ b" by simp
  then show ?thesis unfolding strings_Contains_iff by blast
qed

lemma strings_Contains_ToLower_pdf:
  assumes "strings_Contains v ''.pdf''"
  shows "strings_Contains (strings_ToLower v) ''.pdf''"
proof -
  from assms obtain a b where "v = a @ ''.pdf'' @ b" unfolding strings_Contains_iff by blast
  then have "strings_ToLower v = strings_ToLower a @ ''.pdf'' @ strings_ToLower b"
    by (simp add: strings_ToLower_def toLower_char_def)
  then show ?thesis unfolding strings_Contains_iff by blast
qed

text \<open>What both extractors make of an absolute or protocol-relative value.\<close>

lemma absolute_value_cases:
  assumes "prefix ''http://'' v \<or> prefix ''https://'' v \<or> prefix ''//'' v"
    and "strings_Contains v ''.pdf''"
  shows "absoluteURL [w, schemeOf v, drop (length (schemeOf v)) v]
           = (if prefix ''//'' v then ''https:'' @ v else v)"
    and "getSDSLinks_Each (Some v # sel) acc
           = getSDSLinks_Each sel (acc @ [if prefix ''//'' v then ''https:'' @ v else v])"
proof -
  have low: "strings_Contains (strings_ToLower v) ''.pdf''"
    using assms(2) by (rule strings_Contains_ToLower_pdf)
  consider (https) r where "v = ''https://'' @ r"
    | (http) r where "v = ''http://'' @ r"
    | (rel) r where "v = ''//'' @ r"
    using assms(1) by (auto simp: prefix_def)
  then have "absoluteURL [w, schemeOf v, drop (length (schemeOf v)) v]
           = (if prefix ''//'' v then ''https:'' @ v else v)
     \<and> getSDSLinks_Each (Some v # sel) acc
           = getSDSLinks_Each sel (acc @ [if prefix ''//'' v then ''https:'' @ v else v])"
  proof cases
    case https
    with assms(2) have "r \<noteq> []" by auto
    with https low show ?thesis
      by (simp add: absoluteURL_def schemeOf_def strings_HasPrefix_def Let_def)
  next
    case http
    with assms(2) have "r \<noteq> []" by auto
    with http low show ?thesis
      by (simp add: absoluteURL_def schemeOf_def strings_HasPrefix_def Let_def)
  next
    case rel
    with assms(2) have "r \<noteq> []" by auto
    with rel low show ?thesis
      by (simp add: absoluteURL_def schemeOf_def strings_HasPrefix_def Let_def)
  qed
  then show "absoluteURL [w, schemeOf v, drop (length (schemeOf v)) v]
           = (if prefix ''//'' v then ''https:'' @ v else v)"
    and "getSDSLinks_Each (Some v # sel) acc
           = getSDSLinks_Each sel (acc @ [if prefix ''//'' v then ''https:'' @ v else v])"
    by simp_all
qed

lemma FindAll_anchor_page:
  assumes "\<forall>v\<in>set vs. v \<noteq> [] \<and> (\<forall>c\<in>set v. c \<noteq> CHR 0x22 \<and> c \<noteq> CHR 0x27)"
  shows "FindAllStringSubmatch urlRegex 2 (concat (map (\<lambda>v. ''<a href='' @ CHR 0x22 # v @ CHR 0x22 # ''>'') vs))
       = map (\<lambda>v. [''href='' @ CHR 0x22 # v @ [CHR 0x22], schemeOf v, drop (length (schemeOf v)) v]) vs"
  using assms
proof (induction vs)
  case Nil
  then show ?case by (simp add: FindAll_urlRegex_Nil)
next
  case (Cons v vs)
  let ?rest = "concat (map (\<lambda>v. ''<a href='' @ CHR 0x22 # v @ CHR 0x22 # ''>'') vs)"
  from Cons.prems have v: "v \<noteq> []" "\<forall>c\<in>set v. c \<noteq> CHR 0x22 \<and> c \<noteq> CHR 0x27" by simp_all
  have "FindAllStringSubmatch urlRegex 2 (''<a '' @ ''href'' @ ''='' @ CHR 0x22 # v @ CHR 0x22 # (''>'' @ ?rest))
      = [''href'' @ ''='' @ CHR 0x22 # v @ [CHR 0x22], schemeOf v, drop (length (schemeOf v)) v]
        # FindAllStringSubmatch urlRegex 2 (''>'' @ ?rest)"
    by (rule urlRegex_first_match) (use v in simp_all)
  also have "FindAllStringSubmatch urlRegex 2 (''>'' @ ?rest) = FindAllStringSubmatch urlRegex 2 ?rest"
    by (rule FindAll_urlRegex_skip_chars) simp_all
  also have "\<dots> = map (\<lambda>v. [''href='' @ CHR 0x22 # v @ [CHR 0x22], schemeOf v, drop (length (schemeOf v)) v]) vs"
    using Cons by simp
  finally show ?case by simp
qed

lemma getSDSLinks_Each_absolute:
  assumes "\<forall>v\<in>set vs. (prefix ''http://'' v \<or> prefix ''https://'' v \<or> prefix ''//'' v) \<and>
                       strings_Contains v ''.pdf''"
  shows "getSDSLinks_Each (map Some vs) acc
       = acc @ map (\<lambda>v. if prefix ''//'' v then ''https:'' @ v else v) vs"
  using assms
proof (induction vs arbitrary: acc)
  case Nil
  then show ?case by simp
next
  case (Cons v vs)
  then have v: "prefix ''http://'' v \<or> prefix ''https://'' v \<or> prefix ''//'' v"
      "strings_Contains v ''.pdf''" by simp_all
  have "getSDSLinks_Each (map Some (v # vs)) acc
      = getSDSLinks_Each (map Some vs) (acc @ [if prefix ''//'' v then ''https:'' @ v else v])"
    using absolute_value_cases(2)[OF v] by simp
  also have "\<dots> = (acc @ [if prefix ''//'' v then ''https:'' @ v else v])
                   @ map (\<lambda>v. if prefix ''//'' v then ''https:'' @ v else v) vs"
    using Cons by simp
  finally show ?case by simp
qed

lemma ExtractURLs_anchor_page:
  assumes "\<forall>v\<in>set vs. (\<forall>c\<in>set v. c \<noteq> CHR 0x22 \<and> c \<noteq> CHR 0x27) \<and>
             (prefix ''http://'' v \<or> prefix ''https://'' v \<or> prefix ''//'' v) \<and>
             strings_Contains v ''.pdf''"
  shows "ExtractURLs (concat (map (\<lambda>v. ''<a href='' @ CHR 0x22 # v @ CHR 0x22 # ''>'') vs))
       = map (\<lambda>v. if prefix ''//'' v then ''https:'' @ v else v) vs"
proof -
  let ?f = "\<lambda>v. if prefix ''//'' v then ''https:'' @ v else v"
  have good: "(\<forall>c\<in>set v. c \<noteq> CHR 0x22 \<and> c \<noteq> CHR 0x27)"
      "prefix ''http://'' v \<or> prefix ''https://'' v \<or> prefix ''//'' v"
      "strings_Contains v ''.pdf''" if "v \<in> set vs" for v
    by (rule bspec[OF assms that, THEN conjunct1],
        rule bspec[OF assms that, THEN conjunct2, THEN conjunct1],
        rule bspec[OF assms that, THEN conjunct2, THEN conjunct2])
  have ne: "\<forall>v\<in>set vs. v \<noteq> [] \<and> (\<forall>c\<in>set v. c \<noteq> CHR 0x22 \<and> c \<noteq> CHR 0x27)"
  proof (rule ballI, rule conjI)
    fix v assume v: "v \<in> set vs"
    show "v \<noteq> []"
    proof
      assume "v = []"
      with good(3)[OF v] show False by simp
    qed
    show "\<forall>c\<in>set v. c \<noteq> CHR 0x22 \<and> c \<noteq> CHR 0x27" by (rule good(1)[OF v])
  qed
  have abs: "map absoluteURL
        (map (\<lambda>v. [''href='' @ CHR 0x22 # v @ [CHR 0x22], schemeOf v, drop (length (schemeOf v)) v]) vs)
      = map ?f vs"
    unfolding map_map comp_def
  proof (rule map_cong[OF refl])
    fix v assume v: "v \<in> set vs"
    show "absoluteURL [''href='' @ CHR 0x22 # v @ [CHR 0x22], schemeOf v, drop (length (schemeOf v)) v]
        = ?f v" using good(2,3)[OF v] by (rule absolute_value_cases(1))
  qed
  have keep: "filter (\<lambda>u. strings_Contains u ''.pdf'') (map ?f vs) = map ?f vs"
  proof -
    have "strings_Contains (?f v) ''.pdf''" if "v \<in> set vs" for v
    proof (cases "prefix ''//'' v")
      case True
      then show ?thesis
        using strings_Contains_prepend[OF good(3)[OF that], of "''https:''"] by (simp only: if_True)
    next
      case False
      then show ?thesis using good(3)[OF that] by (simp only: if_False)
    qed
    then have "\<forall>u\<in>set (map ?f vs). strings_Contains u ''.pdf''"
      unfolding set_map by (intro ballI) (elim imageE, simp only:)
    then show ?thesis by (simp only: filter_id_conv)
  qed
  show ?thesis
    by (simp only: ExtractURLs_filter FindAll_anchor_page[OF ne] abs keep)
qed

text \<open>
  Claim C9 says that the extractor with the pattern and \<^verbatim>\<open>getSDSLinks\<close> return the same
  URLs for every page. For the anchor \<^verbatim>\<open><a href="/rel/c.pdf">\<close> the first returns the
  reference as it stands, and the second, given the value of the attribute by the
  parser, resolves it against \<^verbatim>\<open>https://www.chemicalguys.com\<close>.
\<close>

theorem extractors_differ_counterexample:
  \<open>ExtractURLs ''<a href="/rel/c.pdf">c</a>'' = [''/rel/c.pdf''] \<and>
   getSDSLinks_Each [Some ''/rel/c.pdf''] [] = [''https://www.chemicalguys.com/rel/c.pdf'']\<close>
  by code_simp

text \<open>
  Claim C9 as amended: the two extractors agree on a page that is a sequence of
  anchors \<^verbatim>\<open><a href="v">\<close> in which every value \<open>v\<close> holds no quote, begins with
  \<^verbatim>\<open>http://\<close>, \<^verbatim>\<open>https://\<close> or \<^verbatim>\<open>//\<close> and contains \<^verbatim>\<open>.pdf\<close> in lower case, provided the
  page is served with status 200 and the HTML parser reports these values for the
  anchors: both return the values in the order of the page, a protocol-relative one
  with \<^verbatim>\<open>https:\<close> put before it. They do not agree in general: they differ on relative
  references, on \<^verbatim>\<open>.PDF\<close> in upper case, and on \<^verbatim>\<open>src\<close> attributes and elements other
  than anchors, which \<^verbatim>\<open>getSDSLinks\<close> does not read.
\<close>

theorem extractors_agree_on_absolute_anchors:
  assumes "\<forall>v\<in>set vs. (\<forall>c\<in>set v. c \<noteq> CHR 0x22 \<and> c \<noteq> CHR 0x27) \<and>
             (prefix ''http://'' v \<or> prefix ''https://'' v \<or> prefix ''//'' v) \<and>
             strings_Contains v ''.pdf''"
    and "page = concat (map (\<lambda>v. ''<a href='' @ CHR 0x22 # v @ CHR 0x22 # ''>'') vs)"
    and "net ''https://www.chemicalguys.com/pages/material-safety-data-sheets''
           = Response 200 (Complete page)"
    and "anchors page = map Some vs"
  shows "getSDSLinks net anchors = Inr (ExtractURLs page) \<and>
         ExtractURLs page = map (\<lambda>v. if prefix ''//'' v then ''https:'' @ v else v) vs"
proof -
  have e: "ExtractURLs page = map (\<lambda>v. if prefix ''//'' v then ''https:'' @ v else v) vs"
    unfolding assms(2) using assms(1) by (rule ExtractURLs_anchor_page)
  have g: "getSDSLinks_Each (map Some vs) []
         = map (\<lambda>v. if prefix ''//'' v then ''https:'' @ v else v) vs"
    using getSDSLinks_Each_absolute[of vs "[]"] assms(1) by simp
  have "getSDSLinks net anchors = Inr (getSDSLinks_Each (map Some vs) [])"
    using assms(3,4) by (simp add: getSDSLinks_def)
  with e g show ?thesis by simp
qed

theorem extractors_agree_on_absolute_anchors_witness:
  \<open>getSDSLinks (\<lambda>url. Response 200 (Complete ''<a href="https://x.com/a.pdf"><a href="//cdn.x.com/b.pdf">''))
               (\<lambda>page. [Some ''https://x.com/a.pdf'', Some ''//cdn.x.com/b.pdf''])
     = Inr (ExtractURLs ''<a href="https://x.com/a.pdf"><a href="//cdn.x.com/b.pdf">'') \<and>
   ExtractURLs ''<a href="https://x.com/a.pdf"><a href="//cdn.x.com/b.pdf">''
     = [''https://x.com/a.pdf'', ''https://cdn.x.com/b.pdf'']\<close>
proof -
  let ?vs = "[''https://x.com/a.pdf'', ''//cdn.x.com/b.pdf'']"
  let ?page = \<open>''<a href="https://x.com/a.pdf"><a href="//cdn.x.com/b.pdf">''\<close>
  let ?net = "\<lambda>url :: string. Response 200 (Complete ?page)"
  let ?anchors = "\<lambda>page :: string. [Some ''https://x.com/a.pdf'', Some ''//cdn.x.com/b.pdf'']"
  have c: "strings_Contains ''https://x.com/a.pdf'' ''.pdf''"
          "strings_Contains ''//cdn.x.com/b.pdf'' ''.pdf''" by code_simp+
  have h1: "\<forall>v\<in>set ?vs. (\<forall>c\<in>set v. c \<noteq> CHR 0x22 \<and> c \<noteq> CHR 0x27) \<and>
             (prefix ''http://'' v \<or> prefix ''https://'' v \<or> prefix ''//'' v) \<and>
             strings_Contains v ''.pdf''"
    using c by simp
  have h2: "?page = concat (map (\<lambda>v. ''<a href='' @ CHR 0x22 # v @ CHR 0x22 # ''>'') ?vs)"
    by simp
  have h3: "?net ''https://www.chemicalguys.com/pages/material-safety-data-sheets''
           = Response 200 (Complete ?page)" by (rule refl)
  have h4: "?anchors ?page = map Some ?vs" by simp
  have m: "map (\<lambda>v. if prefix ''//'' v then ''https:'' @ v else v) ?vs
      = [''https://x.com/a.pdf'', ''https://cdn.x.com/b.pdf'']" by simp
  note t = extractors_agree_on_absolute_anchors[of ?vs ?page ?net ?anchors, OF h1 h2 h3 h4]
  from t[unfolded m] show ?thesis .
qed


section \<open>Properties of the file names\<close>

lemma takeWhile_until: "sep \<notin> set a \<Longrightarrow> takeWhile (\<lambda>c. c \<noteq> sep) (a @ sep # b) = a"
  by (induction a) auto

lemma takeWhile_all: "sep \<notin> set a \<Longrightarrow> takeWhile (\<lambda>c. c \<noteq> sep) a = a"
  by (induction a) auto

lemma dropWhile_until: "sep \<notin> set a \<Longrightarrow> dropWhile (\<lambda>c. c \<noteq> sep) (a @ sep # b) = sep # b"
  by (induction a) auto

lemma strings_Cut_found:
  "sep \<notin> set a \<Longrightarrow> strings_Cut (a @ sep # b) sep = (a, b, True)"
  by (simp add: strings_Cut_def Let_def takeWhile_until)

lemma strings_Cut_not_found:
  "sep \<notin> set a \<Longrightarrow> strings_Cut a sep = (a, [], False)"
  by (simp add: strings_Cut_def Let_def takeWhile_all)

lemma getScheme_loop_scheme:
  assumes "\<forall>c\<in>set s. isLetter c \<or> isDigit c \<or> c = CHR ''+'' \<or> c = CHR ''-'' \<or> c = CHR ''.''"
    and "0 < i"
  shows "getScheme_loop raw i (s @ CHR '':'' # rest)
       = Some (take (i + length s) raw, drop (Suc (i + length s)) raw)"
  using assms
proof (induction s arbitrary: i)
  case Nil
  then show ?case by (simp add: isLetter_def isDigit_def)
next
  case (Cons c s)
  then show ?case by auto
qed

lemma getScheme_scheme:
  assumes "sch \<noteq> []" "isLetter (hd sch)"
    and "\<forall>c\<in>set sch. isLetter c \<or> isDigit c \<or> c = CHR ''+'' \<or> c = CHR ''-'' \<or> c = CHR ''.''"
  shows "getScheme (sch @ CHR '':'' # rest) = Some (sch, rest)"
proof -
  from assms(1) obtain c s where sch: "sch = c # s" by (cases sch) auto
  with assms have c: "isLetter c"
    and s: "\<forall>c\<in>set s. isLetter c \<or> isDigit c \<or> c = CHR ''+'' \<or> c = CHR ''-'' \<or> c = CHR ''.''"
    by simp_all
  have "getScheme (sch @ CHR '':'' # rest)
      = getScheme_loop (sch @ CHR '':'' # rest) (Suc 0) (s @ CHR '':'' # rest)"
    using c by (simp add: getScheme_def sch)
  also have "\<dots> = Some (take (Suc 0 + length s) (sch @ CHR '':'' # rest),
                          drop (Suc (Suc 0 + length s)) (sch @ CHR '':'' # rest))"
    using s by (intro getScheme_loop_scheme) simp_all
  also have "\<dots> = Some (sch, rest)" by (simp add: sch)
  finally show ?thesis .
qed

lemma unescape_no_percent: "CHR ''%'' \<notin> set s \<Longrightarrow> unescape s = Some s"
  by (induction s) auto

lemma path_Base_last_segment:
  assumes "seg \<noteq> []" "CHR ''/'' \<notin> set seg"
  shows "path_Base (dir @ CHR ''/'' # seg) = seg"
proof -
  let ?p = "dir @ CHR ''/'' # seg"
  have r: "rev ?p = rev seg @ CHR ''/'' # rev dir" by simp
  from assms obtain c s where rs: "rev seg = c # s" by (cases "rev seg") auto
  with assms(2) have c: "c \<noteq> CHR ''/''"
    by (metis list.set_intros(1) set_rev)
  then have d: "dropWhile (\<lambda>c. c = CHR ''/'') (rev ?p) = rev ?p"
    unfolding r rs by simp
  have "CHR ''/'' \<notin> set (rev seg)" using assms(2) by simp
  then have t: "takeWhile (\<lambda>c. c \<noteq> CHR ''/'') (rev seg @ CHR ''/'' # rev dir) = rev seg"
    by (rule takeWhile_until)
  show ?thesis
    unfolding path_Base_def Let_def d rev_rev_ident
    using assms(1) t by (simp del: rev_append add: r)
qed

text \<open>The split of the query, in both branches of the parser.\<close>

lemma query_split:
  assumes "CHR ''?'' \<notin> set a" and "t = [] \<or> hd t = CHR ''?''"
  shows "fst (if suffix ''?'' (a @ t) \<and> count_list (a @ t) CHR ''?'' = 1
              then (butlast (a @ t), [])
              else (case strings_Cut (a @ t) CHR ''?'' of (pre, post, _) \<Rightarrow> (pre, post))) = a"
proof (cases t)
  case Nil
  with assms(1) have "\<not> suffix ''?'' (a @ t)"
    by (cases a rule: rev_cases) (auto simp: suffix_def)
  with Nil assms(1) show ?thesis by (simp add: strings_Cut_not_found)
next
  case (Cons c q)
  with assms(2) have t: "t = CHR ''?'' # q" by simp
  show ?thesis
  proof (cases "suffix ''?'' (a @ t) \<and> count_list (a @ t) CHR ''?'' = 1")
    case True
    have "count_list a CHR ''?'' = 0" using assms(1) by (simp add: count_list_0_iff)
    with True t have "count_list q CHR ''?'' = 0" by simp
    then have "CHR ''?'' \<notin> set q" by (simp add: count_list_0_iff)
    with True t have "q = []" by (cases q rule: rev_cases) (auto simp: suffix_def)
    with True t show ?thesis by (simp add: butlast_append)
  next
    case False
    have "fst (if suffix ''?'' (a @ t) \<and> count_list (a @ t) CHR ''?'' = 1
              then (butlast (a @ t), [])
              else (case strings_Cut (a @ t) CHR ''?'' of (pre, post, _) \<Rightarrow> (pre, post)))
        = fst (case strings_Cut (a @ t) CHR ''?'' of (pre, post, _) \<Rightarrow> (pre, post))"
      by (rule arg_cong[where f = fst], rule if_not_P) (rule False)
    also have "\<dots> = a" unfolding t using assms(1) by (simp add: strings_Cut_found)
    finally show ?thesis .
  qed
qed

lemma url_parse_absolute:
  assumes sch: "sch \<noteq> []" "isLetter (hd sch)"
      "\<forall>c\<in>set sch. isLetter c \<or> isDigit c \<or> c = CHR ''+'' \<or> c = CHR ''-'' \<or> c = CHR ''.''"
    and auth: "parseAuthority_ok auth" "CHR ''/'' \<notin> set auth" "CHR ''?'' \<notin> set auth"
    and path: "path \<noteq> []" "hd path = CHR ''/''" "CHR ''?'' \<notin> set path" "CHR ''%'' \<notin> set path"
    and t: "t = [] \<or> hd t = CHR ''?''"
    and noctl: "\<not> stringContainsCTLByte (sch @ ''://'' @ auth @ path @ t)"
  shows "\<exists>u. url_parse (sch @ ''://'' @ auth @ path @ t) = Some u \<and> Path u = path"
proof -
  let ?raw = "sch @ ''://'' @ auth @ path @ t"
  let ?a = "''//'' @ auth @ path"
  from path(1,2) obtain p' where p': "path = CHR ''/'' # p'" by (cases path) auto
  have star: "?raw \<noteq> ''*''"
    using sch(1) by (cases sch) auto
  have gs: "getScheme ?raw = Some (sch, ?a @ t)"
    using getScheme_scheme[OF sch, of "?a @ t"] by simp
  have qa: "CHR ''?'' \<notin> set ?a" using auth(3) path(3) by simp
  define X where "X = (if suffix ''?'' (?a @ t) \<and> count_list (?a @ t) CHR ''?'' = 1
      then (butlast (?a @ t), [])
      else (case strings_Cut (?a @ t) CHR ''?'' of (pre, post, _) \<Rightarrow> (pre, post)))"
  have "fst X = ?a" unfolding X_def using qa t by (rule query_split)
  then obtain rq where split: "X = (?a, rq)" by (cases X) simp
  have pa: "prefix ''/'' ?a" "prefix ''//'' ?a" by simp_all
  have au: "takeWhile (\<lambda>c. c \<noteq> CHR ''/'') (drop 2 ?a) = auth"
    using takeWhile_until[OF auth(2), of p'] by (simp add: p')
  have re: "dropWhile (\<lambda>c. c \<noteq> CHR ''/'') (drop 2 ?a) = path"
    using dropWhile_until[OF auth(2), of p'] by (simp add: p')
  have un: "unescape path = Some path" using path(4) by (rule unescape_no_percent)
  show ?thesis
    unfolding url_parse_def
    apply (simp only: noctl star if_False gs option.case prod.case)
    apply (simp only: X_def[symmetric] split)
    apply (simp only: Let_def prod.case pa au re un simp_thms if_False if_True sch(1) auth(1) option.case)
    apply simp
    done
qed


lemma url_Parse_absolute:
  assumes sch: "sch \<noteq> []" "isLetter (hd sch)"
      "\<forall>c\<in>set sch. isLetter c \<or> isDigit c \<or> c = CHR ''+'' \<or> c = CHR ''-'' \<or> c = CHR ''.''"
    and auth: "parseAuthority_ok auth" "CHR ''/'' \<notin> set auth" "CHR ''?'' \<notin> set auth"
    and path: "path \<noteq> []" "hd path = CHR ''/''" "CHR ''?'' \<notin> set path" "CHR ''%'' \<notin> set path"
    and t: "t = [] \<or> hd t = CHR ''?''"
    and noctl: "\<not> stringContainsCTLByte (sch @ ''://'' @ auth @ path @ t)"
    and nohash: "CHR ''#'' \<notin> set (sch @ ''://'' @ auth @ path @ t)"
    and frag: "f = [] \<or> (hd f = CHR ''#'' \<and> CHR ''%'' \<notin> set f)"
  shows "\<exists>u. url_Parse (sch @ ''://'' @ auth @ path @ t @ f) = Some u \<and> Path u = path"
proof -
  let ?raw = "sch @ ''://'' @ auth @ path @ t"
  obtain u where u: "url_parse ?raw = Some u" "Path u = path"
    using url_parse_absolute[OF sch auth path t noctl] by blast
  show ?thesis
  proof (cases f)
    case Nil
    have "strings_Cut (?raw @ f) CHR ''#'' = (?raw, [], False)"
      unfolding Nil append_Nil2 using nohash by (rule strings_Cut_not_found)
    then have "url_Parse (?raw @ f) = Some u"
      by (simp only: url_Parse_def prod.case u option.case if_True simp_thms)
    with u(2) show ?thesis by simp
  next
    case (Cons c g)
    with frag have f: "f = CHR ''#'' # g" and g: "CHR ''%'' \<notin> set g" by auto
    have "strings_Cut (?raw @ f) CHR ''#'' = (?raw, g, True)"
      unfolding f using nohash by (rule strings_Cut_found)
    then have "url_Parse (?raw @ f) =
        (if g = [] then Some u else Some (u\<lparr>Fragment := g\<rparr>))"
      by (simp only: url_Parse_def prod.case u option.case unescape_no_percent[OF g] simp_thms)
    with u(2) show ?thesis by (cases "g = []") simp_all
  qed
qed

text \<open>
  Claim C2 says that every URL derives to its last path segment, with spaces replaced
  and letters lowered. The function of lines 77 to 91 keeps the case: for the URL of
  the claim it returns \<^verbatim>\<open>My_File.pdf\<close>, not \<^verbatim>\<open>my_file.pdf\<close>. The function of lines 618 to
  629 lowers the case, but returns what \<^verbatim>\<open>path.Base\<close> returns: for
  \<^verbatim>\<open>https://example.com/\<close>, whose last path segment is empty, that is \<^verbatim>\<open>/\<close>.
\<close>

theorem getFileNamesFromURLs_counterexample:
  "getFileNamesFromURLs ''https://example.com/docs/My File.pdf?v=2'' = ''My_File.pdf'' \<and>
   spec_filename ''https://example.com/docs/My File.pdf?v=2'' = ''my_file.pdf'' \<and>
   getFileNamesFromURLs_618 ''https://example.com/'' = ''/'' \<and>
   spec_filename ''https://example.com/'' = []"
  by code_simp

text \<open>
  Claim C2 as amended: for a URL \<^verbatim>\<open>scheme://authority/dir/seg\<close>, with or without a query
  string and a fragment, that \<^verbatim>\<open>url.Parse\<close> accepts, where the last path segment
  \<^verbatim>\<open>seg\<close> is not empty, is ASCII, and the path has no percent escape, the file name is
  \<^verbatim>\<open>seg\<close> with every space replaced by an underscore; the query string and the fragment
  play no part. The function of lines 618 to 629 lowers the case of that name, the
  function of lines 77 to 91 keeps it. So \<^verbatim>\<open>https://example.com/docs/My File.pdf?v=2\<close>
  derives to \<^verbatim>\<open>my_file.pdf\<close> in the one and to \<^verbatim>\<open>My_File.pdf\<close> in the other.
\<close>

theorem getFileNamesFromURLs_last_segment:
  assumes sch: "sch \<noteq> []" "isLetter (hd sch)"
      "\<forall>c\<in>set sch. isLetter c \<or> isDigit c \<or> c = CHR ''+'' \<or> c = CHR ''-'' \<or> c = CHR ''.''"
    and auth: "parseAuthority_ok auth"
      "CHR ''/'' \<notin> set auth" "CHR ''?'' \<notin> set auth" "CHR ''#'' \<notin> set auth"
    and dir: "dir = [] \<or> hd dir = CHR ''/''"
      "CHR ''?'' \<notin> set dir" "CHR ''#'' \<notin> set dir" "CHR ''%'' \<notin> set dir"
    and seg: "seg \<noteq> []" "CHR ''/'' \<notin> set seg"
      "CHR ''?'' \<notin> set seg" "CHR ''#'' \<notin> set seg" "CHR ''%'' \<notin> set seg"
      "\<forall>c\<in>set seg. (of_char c :: nat) < 128"
    and query: "query = [] \<or> hd query = CHR ''?''" "CHR ''#'' \<notin> set query"
    and fragment: "fragment = [] \<or> (hd fragment = CHR ''#'' \<and> CHR ''%'' \<notin> set fragment)"
    and noctl: "\<not> stringContainsCTLByte (sch @ ''://'' @ auth @ dir @ ''/'' @ seg @ query)"
  shows "getFileNamesFromURLs (sch @ ''://'' @ auth @ dir @ ''/'' @ seg @ query @ fragment)
           = strings_ReplaceAll_space seg
       \<and> getFileNamesFromURLs_618 (sch @ ''://'' @ auth @ dir @ ''/'' @ seg @ query @ fragment)
           = strings_ToLower (strings_ReplaceAll_space seg)"
proof -
  let ?path = "dir @ CHR ''/'' # seg"
  have p1: "?path \<noteq> []" by simp
  have p2: "hd ?path = CHR ''/''" using dir(1) by (cases dir) auto
  have p3: "CHR ''?'' \<notin> set ?path" using dir(2) seg(3) by simp
  have p4: "CHR ''%'' \<notin> set ?path" using dir(4) seg(5) by simp
  have hs: "CHR ''#'' \<notin> set sch"
  proof
    assume "CHR ''#'' \<in> set sch"
    with sch(3) have "isLetter CHR ''#'' \<or> isDigit CHR ''#'' \<or> CHR ''#'' = CHR ''+''
        \<or> CHR ''#'' = CHR ''-'' \<or> CHR ''#'' = CHR ''.''" by (rule bspec)
    then show False by (simp add: isLetter_def isDigit_def)
  qed
  have nohash: "CHR ''#'' \<notin> set (sch @ ''://'' @ auth @ ?path @ query)"
    using hs auth(4) dir(3) seg(4) query(2) by simp
  have noctl': "\<not> stringContainsCTLByte (sch @ ''://'' @ auth @ ?path @ query)"
    using noctl by simp
  obtain u where u: "url_Parse (sch @ ''://'' @ auth @ ?path @ query @ fragment) = Some u"
      "Path u = ?path"
    using url_Parse_absolute[OF sch auth(1-3) p1 p2 p3 p4 query(1) noctl' nohash fragment]
    by blast
  have raw: "sch @ ''://'' @ auth @ dir @ ''/'' @ seg @ query @ fragment
      = sch @ ''://'' @ auth @ ?path @ query @ fragment" by simp
  have base: "path_Base ?path = seg" using seg(1,2) by (rule path_Base_last_segment)
  show ?thesis
    unfolding raw getFileNamesFromURLs_def getFileNamesFromURLs_618_def u(1) option.case u(2) base
    by (rule conjI; rule refl)
qed

theorem getFileNamesFromURLs_last_segment_witness:
  "getFileNamesFromURLs ''https://example.com/docs/My File.pdf?v=2'' = ''My_File.pdf'' \<and>
   getFileNamesFromURLs_618 ''https://example.com/docs/My File.pdf?v=2'' = ''my_file.pdf''"
proof -
  have h1: "''https'' \<noteq> []" "isLetter (hd ''https'')"
      "\<forall>c\<in>set ''https''. isLetter c \<or> isDigit c \<or> c = CHR ''+'' \<or> c = CHR ''-'' \<or> c = CHR ''.''"
    by code_simp+
  have h2: "parseAuthority_ok ''example.com''"
      "CHR ''/'' \<notin> set ''example.com''" "CHR ''?'' \<notin> set ''example.com''"
      "CHR ''#'' \<notin> set ''example.com''"
    by code_simp+
  have h3: "''/docs'' = [] \<or> hd ''/docs'' = CHR ''/''"
      "CHR ''?'' \<notin> set ''/docs''" "CHR ''#'' \<notin> set ''/docs''" "CHR ''%'' \<notin> set ''/docs''"
    by code_simp+
  have h4: "''My File.pdf'' \<noteq> []" "CHR ''/'' \<notin> set ''My File.pdf''"
      "CHR ''?'' \<notin> set ''My File.pdf''" "CHR ''#'' \<notin> set ''My File.pdf''"
      "CHR ''%'' \<notin> set ''My File.pdf''"
      "\<forall>c\<in>set ''My File.pdf''. (of_char c :: nat) < 128"
    by code_simp+
  have h5: "''?v=2'' = [] \<or> hd ''?v=2'' = CHR ''?''" "CHR ''#'' \<notin> set ''?v=2''"
    by code_simp+
  have h6: "[] = [] \<or> (hd [] = CHR ''#'' \<and> CHR ''%'' \<notin> set ([] :: string))" by simp
  have h7: "\<not> stringContainsCTLByte
      (''https'' @ ''://'' @ ''example.com'' @ ''/docs'' @ ''/'' @ ''My File.pdf'' @ ''?v=2'')"
    by code_simp
  have r: "strings_ReplaceAll_space ''My File.pdf'' = ''My_File.pdf''"
      "strings_ToLower ''My_File.pdf'' = ''my_file.pdf''" by code_simp+
  have raw: "''https'' @ ''://'' @ ''example.com'' @ ''/docs'' @ ''/'' @ ''My File.pdf'' @ ''?v=2'' @ []
      = ''https://example.com/docs/My File.pdf?v=2''" by simp
  note t = getFileNamesFromURLs_last_segment[OF h1 h2 h3 h4 h5 h6 h7]
  from t show ?thesis unfolding raw r .
qed

end
